theory Spec2Isabelle
  imports Complex_Main "HOL-Library.Word" "HOL-Library.Log_Nat"
begin

section \<open>Cartesian Laplace kernel: data model\<close>

text \<open>
  The embedding follows \<^verbatim>\<open>kernel/LaplaceCartesian.hpp\<close>.

  \<^item> \<^verbatim>\<open>unsigned\<close> is a 32-bit word; \<^verbatim>\<open>cart_index\<close>, \<^verbatim>\<open>factorial\<close> and
    \<^verbatim>\<open>cart_value\<close> wrap around as the C++ does.
  \<^item> \<^verbatim>\<open>typedef double real\<close> is read in two ways. The first part of the theory reads it
    as the mathematical reals: its functions compute what the code computes when no
    operation rounds or leaves the range of the type, and its statements are statements of
    exact arithmetic. The section on double precision reads it as IEEE 754 binary64, with
    rounding, infinities and NaN, and repeats the functions over that type.
  \<^item> The \<^verbatim>\<open>int\<close> template arguments \<^verbatim>\<open>nx, ny, nz, kx, ky, kz\<close> are natural numbers
    (no instantiation reachable from an order \<^verbatim>\<open>P \<ge> 1\<close> is negative); a template
    specialisation on \<^verbatim>\<open>0\<close> is a pattern on \<open>0\<close>, the general template is the
    pattern \<open>Suc\<close>.
  \<^item> A \<^verbatim>\<open>Vec<N,real>\<close> is a function from slots to reals; only slots below \<open>N\<close>
    exist in the program.
\<close>

type_synonym u32 = "32 word"
type_synonym vec = "nat \<Rightarrow> real"
type_synonym point = "real \<times> real \<times> real"

subsection \<open>Monomial index and factorial weight\<close>

definition cart_index :: "u32 \<Rightarrow> u32 \<Rightarrow> u32 \<Rightarrow> u32" where
  "cart_index nx ny nz =
     (nx+ny+nz)*(nx+ny+nz+1)*(nx+ny+nz+2) div 6 + (ny+nz)*(ny+nz+1) div 2 + nz"

function factorial :: "u32 \<Rightarrow> u32" where
  "factorial k = (if k \<le> 1 then 1 else k * factorial (k - 1))"
  by pat_completeness auto
termination
proof (relation "measure unat")
  show "wf (measure unat)" by simp
next
  fix k :: u32
  assume "\<not> k \<le> 1"
  then have "Suc 0 < unat k"
    by (simp add: not_le word_less_nat_alt)
  then have "unat (k - 1) < unat k"
    by (metis One_nat_def measure_unat not_one_less_zero unsigned_0)
  then show "(k - 1, k) \<in> measure unat" by simp
qed

declare factorial.simps [simp del]

definition cart_value :: "u32 \<Rightarrow> u32 \<Rightarrow> u32 \<Rightarrow> u32" where
  "cart_value nx ny nz = factorial nx * factorial ny * factorial nz"

text \<open>\<^verbatim>\<open>Index<nx,ny,nz>::I\<close> and \<^verbatim>\<open>Index<nx,ny,nz>::F\<close>: the template arguments are
  converted to \<^verbatim>\<open>unsigned\<close>, the results are used as a subscript and as a \<^verbatim>\<open>real\<close>.\<close>

definition Index_I :: "nat \<Rightarrow> nat \<Rightarrow> nat \<Rightarrow> nat" where
  "Index_I nx ny nz = unat (cart_index (of_nat nx) (of_nat ny) (of_nat nz))"

definition Index_F :: "nat \<Rightarrow> nat \<Rightarrow> nat \<Rightarrow> real" where
  "Index_F nx ny nz = real (unat (cart_value (of_nat nx) (of_nat ny) (of_nat nz)))"

text \<open>\<^verbatim>\<open>MTERM = P*(P+1)*(P+2)/6\<close> and \<^verbatim>\<open>LTERM = (P+1)*(P+2)*(P+3)/6\<close>, computed in
  \<^verbatim>\<open>unsigned\<close> from the template argument \<^verbatim>\<open>unsigned P\<close>.\<close>

definition MTERM :: "nat \<Rightarrow> nat" where
  "MTERM P = unat ((of_nat P * (of_nat P + 1) * (of_nat P + 2)) div 6 :: u32)"

definition LTERM :: "nat \<Rightarrow> nat" where
  "LTERM P = unat (((of_nat P + 1) * (of_nat P + 2) * (of_nat P + 3)) div 6 :: u32)"

subsection \<open>Points and vectors\<close>

text \<open>Modelled from the spec: \<^verbatim>\<open>Vec.hpp\<close> is not among the sources. A \<^verbatim>\<open>Vec\<close> is a
  fixed-length array with componentwise \<^verbatim>\<open>-\<close>, \<^verbatim>\<open>+=\<close> and scalar \<^verbatim>\<open>*=\<close>, built zeroed;
  \<^verbatim>\<open>normSq\<close> is the squared Euclidean norm.\<close>

fun pnth :: "point \<Rightarrow> nat \<Rightarrow> real" where
  "pnth (x, y, z) i = (if i = 0 then x else if i = 1 then y else z)"

fun psub :: "point \<Rightarrow> point \<Rightarrow> point" where
  "psub (a, b, c) (x, y, z) = (a - x, b - y, c - z)"

fun normSq :: "point \<Rightarrow> real" where
  "normSq (x, y, z) = x * x + y * y + z * z"

definition vzero :: vec where
  "vzero = (\<lambda>i. 0)"

definition vadd :: "nat \<Rightarrow> vec \<Rightarrow> vec \<Rightarrow> vec" where
  "vadd N A B = (\<lambda>i. if i < N then A i + B i else A i)"

section \<open>Power builder, derivative builder and scaling\<close>

text \<open>\<^verbatim>\<open>Terms<nx,ny,nz>::power\<close>: the recursive call runs first, then the slot is written.
  The displacement \<^verbatim>\<open>dist\<close> is written \<open>dst\<close> (the name \<open>dist\<close> is the metric of HOL).\<close>

function Terms_power :: "nat \<Rightarrow> nat \<Rightarrow> nat \<Rightarrow> vec \<Rightarrow> point \<Rightarrow> vec" where
  "Terms_power nx ny (Suc nz) C dst =
     (let C = Terms_power nx (Suc ny) nz C dst
      in C(Index_I nx ny (Suc nz) := C (Index_I nx ny nz) * pnth dst 2 / real (Suc nz)))"
| "Terms_power nx (Suc ny) 0 C dst =
     (let C = Terms_power (Suc nx) 0 ny C dst
      in C(Index_I nx (Suc ny) 0 := C (Index_I nx ny 0) * pnth dst 1 / real (Suc ny)))"
| "Terms_power (Suc nx) 0 0 C dst =
     (let C = Terms_power 0 0 nx C dst
      in C(Index_I (Suc nx) 0 0 := C (Index_I nx 0 0) * pnth dst 0 / real (Suc nx)))"
| "Terms_power 0 0 0 C dst = C"
  by pat_completeness auto
termination
  by (relation "measures [\<lambda>(nx, ny, nz, C, dst). nx + ny + nz,
                          \<lambda>(nx, ny, nz, C, dst). ny + nz,
                          \<lambda>(nx, ny, nz, C, dst). nz]") auto

text \<open>\<^verbatim>\<open>DerivativeTerm<n,kx,ky,kz,d>::kernel\<close>; the specialisation is \<open>d = -1\<close>.\<close>

definition DerivativeTerm :: "nat \<Rightarrow> nat \<Rightarrow> nat \<Rightarrow> nat \<Rightarrow> int \<Rightarrow> vec \<Rightarrow> point \<Rightarrow> real" where
  "DerivativeTerm n kx ky kz d C dst =
     (if d = - 1 then real_of_int (1 - int n) * C (Index_I kx ky kz)
      else real_of_int (1 - 2 * int n) * pnth dst (nat d) * C (Index_I kx ky kz))"

text \<open>\<^verbatim>\<open>DerivativeSum<nx,ny,nz,kx,ky,kz,flag>::loop\<close>. The branches are the
  specialisations on \<open>flag\<close> (0 to 4), the specialisation \<open>kz = 0, flag = 5\<close> and the
  general template. A decrement \<^verbatim>\<open>k-1\<close> of a template argument that is \<open>0\<close> is never
  instantiated from \<^verbatim>\<open>DerivativeSum<nx,ny,nz>\<close>; the model leaves that case open.\<close>

function DerivativeSum ::
  "nat \<Rightarrow> nat \<Rightarrow> nat \<Rightarrow> nat \<Rightarrow> nat \<Rightarrow> nat \<Rightarrow> nat \<Rightarrow> vec \<Rightarrow> point \<Rightarrow> real" where
  "DerivativeSum nx ny nz kx ky kz flag C dst =
     (if flag = 0 then 0
      else if flag = 1 then
        (case kx of Suc kx1 \<Rightarrow>
           DerivativeSum nx ny nz kx1 ny nz (1 - of_bool (kx < nx \<or> kx = 1)) C dst
           + DerivativeTerm (nx + ny + nz) kx1 ny nz (if int kx = int nx - 1 then - 1 else 0) C dst)
      else if flag = 2 then
        DerivativeSum nx ny nz nx ny nz (1 - of_bool (nx = 0)) C dst
      else if flag = 3 then
        (case ky of Suc ky1 \<Rightarrow>
           DerivativeSum nx ny nz nx ky1 nz (3 - of_bool (ky < ny \<or> ky = 1)) C dst
           + DerivativeTerm (nx + ny + nz) nx ky1 nz (if int ky = int ny - 1 then - 1 else 1) C dst)
      else if flag = 4 then
        DerivativeSum nx ny nz nx ny nz (3 - of_bool (ny = 0)) C dst
      else if flag = 5 \<and> kz = 0 then
        DerivativeSum nx ny nz nx ny 0 4 C dst
      else
        (case kz of Suc kz1 \<Rightarrow>
           DerivativeSum nx ny nz nx ny kz1 (5 - of_bool (kz < nz \<or> kz = 1)) C dst
           + DerivativeTerm (nx + ny + nz) nx ny kz1 (if int kz = int nz - 1 then - 1 else 2) C dst))"
  by pat_completeness auto
termination
  by (relation "measures [\<lambda>(nx, ny, nz, kx, ky, kz, flag, C, dst). flag,
                          \<lambda>(nx, ny, nz, kx, ky, kz, flag, C, dst).
                             if flag = 1 then kx else if flag = 3 then ky else kz]")
     (auto split: if_splits)

declare DerivativeSum.simps [simp del]

function Terms_derivative :: "nat \<Rightarrow> nat \<Rightarrow> nat \<Rightarrow> vec \<Rightarrow> point \<Rightarrow> real \<Rightarrow> vec" where
  "Terms_derivative nx ny (Suc nz) C dst invR2 =
     (let C = Terms_derivative nx (Suc ny) nz C dst invR2
      in C(Index_I nx ny (Suc nz) :=
             DerivativeSum nx ny (Suc nz) nx ny (Suc nz) 5 C dst / real (nx + ny + Suc nz) * invR2))"
| "Terms_derivative nx (Suc ny) 0 C dst invR2 =
     (let C = Terms_derivative (Suc nx) 0 ny C dst invR2
      in C(Index_I nx (Suc ny) 0 :=
             DerivativeSum nx (Suc ny) 0 nx (Suc ny) 0 5 C dst / real (nx + Suc ny) * invR2))"
| "Terms_derivative (Suc nx) 0 0 C dst invR2 =
     (let C = Terms_derivative 0 0 nx C dst invR2
      in C(Index_I (Suc nx) 0 0 :=
             DerivativeSum (Suc nx) 0 0 (Suc nx) 0 0 5 C dst / real (Suc nx) * invR2))"
| "Terms_derivative 0 0 0 C dst invR2 = C"
  by pat_completeness auto
termination
  by (relation "measures [\<lambda>(nx, ny, nz, C, dst, invR2). nx + ny + nz,
                          \<lambda>(nx, ny, nz, C, dst, invR2). ny + nz,
                          \<lambda>(nx, ny, nz, C, dst, invR2). nz]") auto

function Terms_scale :: "nat \<Rightarrow> nat \<Rightarrow> nat \<Rightarrow> vec \<Rightarrow> vec" where
  "Terms_scale nx ny (Suc nz) C =
     (let C = Terms_scale nx (Suc ny) nz C
      in C(Index_I nx ny (Suc nz) := C (Index_I nx ny (Suc nz)) * Index_F nx ny (Suc nz)))"
| "Terms_scale nx (Suc ny) 0 C =
     (let C = Terms_scale (Suc nx) 0 ny C
      in C(Index_I nx (Suc ny) 0 := C (Index_I nx (Suc ny) 0) * Index_F nx (Suc ny) 0))"
| "Terms_scale (Suc nx) 0 0 C =
     (let C = Terms_scale 0 0 nx C
      in C(Index_I (Suc nx) 0 0 := C (Index_I (Suc nx) 0 0) * Index_F (Suc nx) 0 0))"
| "Terms_scale 0 0 0 C = C"
  by pat_completeness auto
termination
  by (relation "measures [\<lambda>(nx, ny, nz, C). nx + ny + nz,
                          \<lambda>(nx, ny, nz, C). ny + nz,
                          \<lambda>(nx, ny, nz, C). nz]") auto

text \<open>\<^verbatim>\<open>getCoef<P>\<close>; \<^verbatim>\<open>invR2\<close> is not written by the generic version.\<close>

definition getCoef :: "nat \<Rightarrow> vec \<Rightarrow> point \<Rightarrow> real \<Rightarrow> real \<Rightarrow> vec" where
  "getCoef P C dst invR2 invR =
     (let C = C(0 := invR);
          C = Terms_derivative 0 0 P C dst invR2
      in Terms_scale 0 0 P C)"

section \<open>Convolution sums\<close>

text \<open>\<^verbatim>\<open>M2MSum<nx,ny,nz,kx,ky,kz>::kernel\<close>. The differences \<^verbatim>\<open>nx-kx\<close>, \<^verbatim>\<open>ny-ky\<close>,
  \<^verbatim>\<open>nz-kz\<close> are never negative in an instantiation reached from \<^verbatim>\<open>Upward\<close>.\<close>

function M2MSum :: "nat \<Rightarrow> nat \<Rightarrow> nat \<Rightarrow> nat \<Rightarrow> nat \<Rightarrow> nat \<Rightarrow> vec \<Rightarrow> vec \<Rightarrow> real" where
  "M2MSum nx ny nz kx ky (Suc kz) C M =
     M2MSum nx ny nz kx ky kz C M
     + C (Index_I (nx - kx) (ny - ky) (nz - Suc kz)) * M (Index_I kx ky (Suc kz))"
| "M2MSum nx ny nz kx (Suc ky) 0 C M =
     M2MSum nx ny nz kx ky nz C M
     + C (Index_I (nx - kx) (ny - Suc ky) nz) * M (Index_I kx (Suc ky) 0)"
| "M2MSum nx ny nz (Suc kx) 0 0 C M =
     M2MSum nx ny nz kx ny nz C M
     + C (Index_I (nx - Suc kx) ny nz) * M (Index_I (Suc kx) 0 0)"
| "M2MSum nx ny nz 0 0 0 C M = 0"
  by pat_completeness auto
termination
  by (relation "measures [\<lambda>(nx, ny, nz, kx, ky, kz, C, M). kx,
                          \<lambda>(nx, ny, nz, kx, ky, kz, C, M). ky,
                          \<lambda>(nx, ny, nz, kx, ky, kz, C, M). kz]") auto

text \<open>\<^verbatim>\<open>M2LSum<nx,ny,nz,kx,ky,kz>::kernel(L, M)\<close>.\<close>

function M2LSum :: "nat \<Rightarrow> nat \<Rightarrow> nat \<Rightarrow> nat \<Rightarrow> nat \<Rightarrow> nat \<Rightarrow> vec \<Rightarrow> vec \<Rightarrow> real" where
  "M2LSum nx ny nz kx ky (Suc kz) L M =
     M2LSum nx ny nz kx (Suc ky) kz L M
     + M (Index_I kx ky (Suc kz)) * L (Index_I (nx + kx) (ny + ky) (nz + Suc kz))"
| "M2LSum nx ny nz kx (Suc ky) 0 L M =
     M2LSum nx ny nz (Suc kx) 0 ky L M
     + M (Index_I kx (Suc ky) 0) * L (Index_I (nx + kx) (ny + Suc ky) nz)"
| "M2LSum nx ny nz (Suc kx) 0 0 L M =
     M2LSum nx ny nz 0 0 kx L M
     + M (Index_I (Suc kx) 0 0) * L (Index_I (nx + Suc kx) ny nz)"
| "M2LSum nx ny nz 0 0 0 L M = 0"
  by pat_completeness auto
termination
  by (relation "measures [\<lambda>(nx, ny, nz, kx, ky, kz, L, M). kx + ky + kz,
                          \<lambda>(nx, ny, nz, kx, ky, kz, L, M). ky + kz,
                          \<lambda>(nx, ny, nz, kx, ky, kz, L, M). kz]") auto

text \<open>\<^verbatim>\<open>LocalSum<nx,ny,nz,kx,ky,kz>::kernel(C, L)\<close>.\<close>

function LocalSum :: "nat \<Rightarrow> nat \<Rightarrow> nat \<Rightarrow> nat \<Rightarrow> nat \<Rightarrow> nat \<Rightarrow> vec \<Rightarrow> vec \<Rightarrow> real" where
  "LocalSum nx ny nz kx ky (Suc kz) C L =
     LocalSum nx ny nz kx (Suc ky) kz C L
     + C (Index_I kx ky (Suc kz)) * L (Index_I (nx + kx) (ny + ky) (nz + Suc kz))"
| "LocalSum nx ny nz kx (Suc ky) 0 C L =
     LocalSum nx ny nz (Suc kx) 0 ky C L
     + C (Index_I kx (Suc ky) 0) * L (Index_I (nx + kx) (ny + Suc ky) nz)"
| "LocalSum nx ny nz (Suc kx) 0 0 C L =
     LocalSum nx ny nz 0 0 kx C L
     + C (Index_I (Suc kx) 0 0) * L (Index_I (nx + Suc kx) ny nz)"
| "LocalSum nx ny nz 0 0 0 C L = 0"
  by pat_completeness auto
termination
  by (relation "measures [\<lambda>(nx, ny, nz, kx, ky, kz, C, L). kx + ky + kz,
                          \<lambda>(nx, ny, nz, kx, ky, kz, C, L). ky + kz,
                          \<lambda>(nx, ny, nz, kx, ky, kz, C, L). kz]") auto

section \<open>Upward and downward sweeps over the slots\<close>

text \<open>\<^verbatim>\<open>Upward<nx,ny,nz>::M2M(MI, C, MJ)\<close>.\<close>

function Upward_M2M :: "nat \<Rightarrow> nat \<Rightarrow> nat \<Rightarrow> vec \<Rightarrow> vec \<Rightarrow> vec \<Rightarrow> vec" where
  "Upward_M2M nx ny (Suc nz) MI C MJ =
     (let MI = Upward_M2M nx (Suc ny) nz MI C MJ
      in MI(Index_I nx ny (Suc nz) :=
              MI (Index_I nx ny (Suc nz)) + M2MSum nx ny (Suc nz) nx ny (Suc nz) C MJ))"
| "Upward_M2M nx (Suc ny) 0 MI C MJ =
     (let MI = Upward_M2M (Suc nx) 0 ny MI C MJ
      in MI(Index_I nx (Suc ny) 0 :=
              MI (Index_I nx (Suc ny) 0) + M2MSum nx (Suc ny) 0 nx (Suc ny) 0 C MJ))"
| "Upward_M2M (Suc nx) 0 0 MI C MJ =
     (let MI = Upward_M2M 0 0 nx MI C MJ
      in MI(Index_I (Suc nx) 0 0 :=
              MI (Index_I (Suc nx) 0 0) + M2MSum (Suc nx) 0 0 (Suc nx) 0 0 C MJ))"
| "Upward_M2M 0 0 0 MI C MJ = MI"
  by pat_completeness auto
termination
  by (relation "measures [\<lambda>(nx, ny, nz, MI, C, MJ). nx + ny + nz,
                          \<lambda>(nx, ny, nz, MI, C, MJ). ny + nz,
                          \<lambda>(nx, ny, nz, MI, C, MJ). nz]") auto


function Downward_M2P :: "nat \<Rightarrow> nat \<Rightarrow> nat \<Rightarrow> nat \<Rightarrow> vec \<Rightarrow> vec \<Rightarrow> vec \<Rightarrow> vec" where
  "Downward_M2P P nx ny (Suc nz) B C M =
     (let B = Downward_M2P P nx (Suc ny) nz B C M
      in B(Index_I nx ny (Suc nz) :=
             B (Index_I nx ny (Suc nz)) + M2LSum nx ny (Suc nz) 0 0 (P - nx - ny - Suc nz) C M))"
| "Downward_M2P P nx (Suc ny) 0 B C M =
     (let B = Downward_M2P P (Suc nx) 0 ny B C M
      in B(Index_I nx (Suc ny) 0 :=
             B (Index_I nx (Suc ny) 0) + M2LSum nx (Suc ny) 0 0 0 (P - nx - Suc ny) C M))"
| "Downward_M2P P (Suc nx) 0 0 B C M =
     (let B = Downward_M2P P 0 0 nx B C M
      in B(Index_I (Suc nx) 0 0 :=
             B (Index_I (Suc nx) 0 0) + M2LSum (Suc nx) 0 0 0 0 (P - Suc nx) C M))"
| "Downward_M2P P 0 0 0 B C M = B"
  by pat_completeness auto
termination
  by (relation "measures [\<lambda>(P, nx, ny, nz, B, C, M). nx + ny + nz,
                          \<lambda>(P, nx, ny, nz, B, C, M). ny + nz,
                          \<lambda>(P, nx, ny, nz, B, C, M). nz]") auto


function Downward_L2P :: "nat \<Rightarrow> nat \<Rightarrow> nat \<Rightarrow> nat \<Rightarrow> vec \<Rightarrow> vec \<Rightarrow> vec \<Rightarrow> vec" where
  "Downward_L2P P nx ny (Suc nz) B C L =
     (let B = Downward_L2P P nx (Suc ny) nz B C L
      in B(Index_I nx ny (Suc nz) :=
             B (Index_I nx ny (Suc nz)) + LocalSum nx ny (Suc nz) 0 0 (P - nx - ny - Suc nz) C L))"
| "Downward_L2P P nx (Suc ny) 0 B C L =
     (let B = Downward_L2P P (Suc nx) 0 ny B C L
      in B(Index_I nx (Suc ny) 0 :=
             B (Index_I nx (Suc ny) 0) + LocalSum nx (Suc ny) 0 0 0 (P - nx - Suc ny) C L))"
| "Downward_L2P P (Suc nx) 0 0 B C L =
     (let B = Downward_L2P P 0 0 nx B C L
      in B(Index_I (Suc nx) 0 0 :=
             B (Index_I (Suc nx) 0 0) + LocalSum (Suc nx) 0 0 0 0 (P - Suc nx) C L))"
| "Downward_L2P P 0 0 0 B C L = B"
  by pat_completeness auto
termination
  by (relation "measures [\<lambda>(P, nx, ny, nz, B, C, L). nx + ny + nz,
                          \<lambda>(P, nx, ny, nz, B, C, L). ny + nz,
                          \<lambda>(P, nx, ny, nz, B, C, L). nz]") auto


definition sumM2P :: "nat \<Rightarrow> vec \<Rightarrow> vec \<Rightarrow> vec \<Rightarrow> vec" where
  "sumM2P P B C M =
     (let B = B(0 := B 0 + C 0);
          B = B(1 := B 1 + C 1);
          B = B(2 := B 2 + C 2);
          B = B(3 := B 3 + C 3);
          B = fold (\<lambda>i B. B(0 := B 0 + M i * C i)) [1 ..< P * (P + 1) * (P + 2) div 6] B
      in Downward_M2P P 0 0 1 B C M)"

section \<open>The six operators\<close>

text \<open>The members of \<^verbatim>\<open>LaplaceCartesian<P>\<close>. Each returns the new contents of the vector
  it accumulates into. The local \<^verbatim>\<open>C\<close> starts as a fresh (zeroed) vector.\<close>

definition P2M :: "nat \<Rightarrow> point \<Rightarrow> real \<Rightarrow> point \<Rightarrow> vec \<Rightarrow> vec" where
  "P2M P source charge center M =
     (let dst = psub center source;
          C = vzero(0 := charge);
          C = Terms_power 0 0 (P - 1) C dst
      in vadd (MTERM P) M C)"

definition M2M :: "nat \<Rightarrow> vec \<Rightarrow> vec \<Rightarrow> point \<Rightarrow> vec" where
  "M2M P Msource Mtarget translation =
     (let C = vzero(0 := 1);
          C = Terms_power 0 0 (P - 1) C translation;
          Mtarget = fold (\<lambda>i Mt. Mt(i := Mt i + C i * Msource 0)) [0 ..< MTERM P] Mtarget
      in Upward_M2M 0 0 (P - 1) Mtarget C Msource)"


definition M2P :: "nat \<Rightarrow> vec \<Rightarrow> point \<Rightarrow> point \<Rightarrow> vec \<Rightarrow> vec" where
  "M2P P M center target result =
     (let dst = psub target center;
          invR2 = 1 / normSq dst;
          invR = M 0 * sqrt invR2;
          C = getCoef P vzero dst invR2 invR
      in sumM2P P result C M)"


definition L2P :: "nat \<Rightarrow> vec \<Rightarrow> point \<Rightarrow> point \<Rightarrow> vec \<Rightarrow> vec" where
  "L2P P L center target result =
     (let dst = psub target center;
          C = vzero(0 := 1);
          C = Terms_power 0 0 P C dst;
          result = result(0 := result 0 + L 0);
          result = result(1 := result 1 + L 1);
          result = result(2 := result 2 + L 2);
          result = result(3 := result 3 + L 3);
          result = fold (\<lambda>i r. r(0 := r 0 + C i * L i)) [1 ..< LTERM P] result
      in Downward_L2P P 0 0 1 result C L)"

definition tri :: "nat \<Rightarrow> nat" where "tri m = m * (m + 1) div 2"
definition tet :: "nat \<Rightarrow> nat" where "tet n = n * (n + 1) * (n + 2) div 6"
definition I_spec :: "nat \<Rightarrow> nat \<Rightarrow> nat \<Rightarrow> nat" where
  "I_spec nx ny nz = tet (nx + ny + nz) + tri (ny + nz) + nz"

function below :: "nat \<Rightarrow> nat \<Rightarrow> nat \<Rightarrow> (nat \<times> nat \<times> nat) list" where
  "below nx ny (Suc nz) = (nx, ny, Suc nz) # below nx (Suc ny) nz"
| "below nx (Suc ny) 0 = (nx, Suc ny, 0) # below (Suc nx) 0 ny"
| "below (Suc nx) 0 0 = (Suc nx, 0, 0) # below 0 0 nx"
| "below 0 0 0 = []"
  by pat_completeness auto
termination
  by (relation "measures [\<lambda>(nx, ny, nz). nx + ny + nz, \<lambda>(nx, ny, nz). ny + nz,
                          \<lambda>(nx, ny, nz). nz]") auto

abbreviation I3 :: "nat \<times> nat \<times> nat \<Rightarrow> nat" where
  "I3 \<equiv> \<lambda>(a, b, c). I_spec a b c"

definition monomial :: "point \<Rightarrow> nat \<Rightarrow> nat \<Rightarrow> nat \<Rightarrow> real" where
  "monomial d a b c = pnth d 0 ^ a * pnth d 1 ^ b * pnth d 2 ^ c / (fact a * fact b * fact c)"

definition acc :: "('k \<Rightarrow> nat) \<Rightarrow> ('k \<Rightarrow> real) \<Rightarrow> 'k \<Rightarrow> vec \<Rightarrow> vec" where
  "acc J t k V = V(J k := V (J k) + t k)"

abbreviation J3 :: "nat \<times> nat \<times> nat \<Rightarrow> nat" where
  "J3 \<equiv> \<lambda>(a, b, c). Index_I a b c"


section \<open>Upward pass over a tree of boxes\<close>

text \<open>Modelled from the spec: the tree layer is not among the sources (only the dispatcher
  \<^verbatim>\<open>executor/M2M.hpp\<close>, which passes \<^verbatim>\<open>center(target) - center(source)\<close> as the
  translation). A leaf holds its center and its bodies (source point and charge); an inner
  box holds its center and its children. Expansions are created zeroed; a leaf accumulates
  \<^verbatim>\<open>P2M\<close> of each body, an inner box accumulates \<^verbatim>\<open>M2M\<close> of each child's multipole.\<close>

datatype box = Leaf point "(point \<times> real) list" | Box point "box list"

fun center :: "box \<Rightarrow> point" where
  "center (Leaf c bodies) = c"
| "center (Box c children) = c"

fun upward :: "nat \<Rightarrow> box \<Rightarrow> vec" where
  "upward P (Leaf c bodies) = fold (\<lambda>(s, q) M. P2M P s q c M) bodies vzero"
| "upward P (Box c children) =
     fold (\<lambda>child M. M2M P (upward P child) M (psub c (center child))) children vzero"

fun charges :: "box \<Rightarrow> real list" where
  "charges (Leaf c bodies) = map snd bodies"
| "charges (Box c children) = concat (map charges children)"





section \<open>Partial derivatives of \<open>1/R\<close>\<close>


text \<open>Coordinates by name, multi-indices with integer entries (so that one step down from
  a zero entry is expressible), and the extension of a family by zero to such indices.\<close>

datatype axis = X | Y | Z

type_synonym mi = "int \<times> int \<times> int"

fun cmp :: "mi \<Rightarrow> axis \<Rightarrow> int" where
  "cmp (i, j, k) X = i"
| "cmp (i, j, k) Y = j"
| "cmp (i, j, k) Z = k"




fun valid :: "mi \<Rightarrow> bool" where
  "valid (i, j, k) \<longleftrightarrow> 0 \<le> i \<and> 0 \<le> j \<and> 0 \<le> k"



definition ext :: "(nat \<Rightarrow> nat \<Rightarrow> nat \<Rightarrow> point \<Rightarrow> real) \<Rightarrow> mi \<Rightarrow> point \<Rightarrow> real" where
  "ext D \<alpha> d = (if valid \<alpha> then D (nat (cmp \<alpha> X)) (nat (cmp \<alpha> Y)) (nat (cmp \<alpha> Z)) d else 0)"







section \<open>Double precision\<close>

text \<open>
  A second reading of \<^verbatim>\<open>double\<close>, for the statements that depend on the range or on the
  rounding of the type: a value is a real number, an infinity or a NaN. The two zeros are
  identified (the only divisions by a variable in the code divide by a sum of squares, which
  is never the negative zero). Every arithmetic operation computes the exact result and
  hands it to a rounding function \<open>rd\<close>; the operations on infinities and NaN are those of
  IEEE 754.
\<close>

datatype dbl = Fin real | PInf | NInf | NaN

type_synonym dvec = "nat \<Rightarrow> dbl"
type_synonym dpoint = "dbl \<times> dbl \<times> dbl"

text \<open>The largest finite \<^verbatim>\<open>double\<close>, \<open>(2\<^sup>5\<^sup>3 - 1) 2\<^sup>9\<^sup>7\<^sup>1\<close>.\<close>

definition dbl_max :: real where
  "dbl_max = (2 ^ 53 - 1) * 2 ^ 971"

text \<open>Three rounding functions. \<open>Fin\<close> itself is exact arithmetic without bounds. \<open>ranged\<close> is
  exact inside the range of \<^verbatim>\<open>double\<close> and overflows to an infinity outside. \<open>round64\<close> is
  IEEE 754 binary64 rounding to nearest, ties to even: with \<open>x\<close> counted in units of
  \<open>2\<^sup>-\<^sup>1\<^sup>0\<^sup>7\<^sup>4\<close> (the smallest subnormal), the spacing of the doubles around \<open>x\<close> is \<open>2\<^sup>u\<close> units,
  \<open>u\<close> the number of bits of the integer part beyond 53.\<close>

definition ranged :: "real \<Rightarrow> dbl" where
  "ranged y = (if \<bar>y\<bar> \<le> dbl_max then Fin y else if 0 < y then PInf else NInf)"

definition rne :: "real \<Rightarrow> int" where
  "rne x = (let f = \<lfloor>x\<rfloor>; r = x - of_int f
            in if r < 1 / 2 then f else if 1 / 2 < r then f + 1
               else if even f then f else f + 1)"

definition round64 :: "real \<Rightarrow> dbl" where
  "round64 x =
     (let q = 2 ^ nat (bitlen \<lfloor>\<bar>x\<bar> * 2 ^ 1074\<rfloor> - 53) / 2 ^ 1074
      in ranged (of_int (rne (x / q)) * q))"

fun dadd :: "(real \<Rightarrow> dbl) \<Rightarrow> dbl \<Rightarrow> dbl \<Rightarrow> dbl" where
  "dadd rd (Fin x) (Fin y) = rd (x + y)"
| "dadd rd (Fin x) PInf = PInf"
| "dadd rd (Fin x) NInf = NInf"
| "dadd rd (Fin x) NaN = NaN"
| "dadd rd PInf (Fin y) = PInf"
| "dadd rd PInf PInf = PInf"
| "dadd rd PInf NInf = NaN"
| "dadd rd PInf NaN = NaN"
| "dadd rd NInf (Fin y) = NInf"
| "dadd rd NInf PInf = NaN"
| "dadd rd NInf NInf = NInf"
| "dadd rd NInf NaN = NaN"
| "dadd rd NaN b = NaN"

fun dneg :: "dbl \<Rightarrow> dbl" where
  "dneg (Fin x) = Fin (- x)"
| "dneg PInf = NInf"
| "dneg NInf = PInf"
| "dneg NaN = NaN"

definition dsub :: "(real \<Rightarrow> dbl) \<Rightarrow> dbl \<Rightarrow> dbl \<Rightarrow> dbl" where
  "dsub rd a b = dadd rd a (dneg b)"

fun dmul :: "(real \<Rightarrow> dbl) \<Rightarrow> dbl \<Rightarrow> dbl \<Rightarrow> dbl" where
  "dmul rd (Fin x) (Fin y) = rd (x * y)"
| "dmul rd (Fin x) PInf = (if x = 0 then NaN else if 0 < x then PInf else NInf)"
| "dmul rd (Fin x) NInf = (if x = 0 then NaN else if 0 < x then NInf else PInf)"
| "dmul rd (Fin x) NaN = NaN"
| "dmul rd PInf (Fin y) = (if y = 0 then NaN else if 0 < y then PInf else NInf)"
| "dmul rd PInf PInf = PInf"
| "dmul rd PInf NInf = NInf"
| "dmul rd PInf NaN = NaN"
| "dmul rd NInf (Fin y) = (if y = 0 then NaN else if 0 < y then NInf else PInf)"
| "dmul rd NInf PInf = NInf"
| "dmul rd NInf NInf = PInf"
| "dmul rd NInf NaN = NaN"
| "dmul rd NaN b = NaN"

fun ddiv :: "(real \<Rightarrow> dbl) \<Rightarrow> dbl \<Rightarrow> dbl \<Rightarrow> dbl" where
  "ddiv rd (Fin x) (Fin y) =
     (if y = 0 then (if x = 0 then NaN else if 0 < x then PInf else NInf) else rd (x / y))"
| "ddiv rd (Fin x) PInf = Fin 0"
| "ddiv rd (Fin x) NInf = Fin 0"
| "ddiv rd (Fin x) NaN = NaN"
| "ddiv rd PInf (Fin y) = (if 0 \<le> y then PInf else NInf)"
| "ddiv rd PInf PInf = NaN"
| "ddiv rd PInf NInf = NaN"
| "ddiv rd PInf NaN = NaN"
| "ddiv rd NInf (Fin y) = (if 0 \<le> y then NInf else PInf)"
| "ddiv rd NInf PInf = NaN"
| "ddiv rd NInf NInf = NaN"
| "ddiv rd NInf NaN = NaN"
| "ddiv rd NaN b = NaN"

fun dsqrt :: "(real \<Rightarrow> dbl) \<Rightarrow> dbl \<Rightarrow> dbl" where
  "dsqrt rd (Fin x) = (if x < 0 then NaN else rd (sqrt x))"
| "dsqrt rd PInf = PInf"
| "dsqrt rd NInf = NaN"
| "dsqrt rd NaN = NaN"


fun is_fin :: "dbl \<Rightarrow> bool" where
  "is_fin (Fin x) \<longleftrightarrow> True"
| "is_fin a \<longleftrightarrow> False"

fun val :: "dbl \<Rightarrow> real" where
  "val (Fin x) = x"
| "val a = 0"

text \<open>A value that \<open>rd\<close> leaves alone: a \<^verbatim>\<open>double\<close> of the format \<open>rd\<close> rounds to.\<close>

fun is_dbl :: "(real \<Rightarrow> dbl) \<Rightarrow> dbl \<Rightarrow> bool" where
  "is_dbl rd (Fin x) \<longleftrightarrow> rd x = Fin x"
| "is_dbl rd a \<longleftrightarrow> True"

definition dzero :: dvec where
  "dzero = (\<lambda>i. Fin 0)"

section \<open>The kernel over double precision\<close>

text \<open>
  The same functions of \<^verbatim>\<open>kernel/LaplaceCartesian.hpp\<close>, operation by operation in the order
  the C++ evaluates them, over \<open>dbl\<close> and a rounding function \<open>rd\<close>. An \<^verbatim>\<open>int\<close> or
  \<^verbatim>\<open>unsigned\<close> operand is converted to \<^verbatim>\<open>double\<close> exactly. The names carry the suffix
  \<open>_d\<close>.
\<close>

text \<open>Modelled from the spec: \<^verbatim>\<open>Vec.hpp\<close> is not among the sources; \<^verbatim>\<open>normSq\<close> adds the
  squares of the components from the first to the last.\<close>

fun pnth_d :: "dpoint \<Rightarrow> nat \<Rightarrow> dbl" where
  "pnth_d (x, y, z) i = (if i = 0 then x else if i = 1 then y else z)"

fun psub_d :: "(real \<Rightarrow> dbl) \<Rightarrow> dpoint \<Rightarrow> dpoint \<Rightarrow> dpoint" where
  "psub_d rd (a, b, c) (x, y, z) = (dsub rd a x, dsub rd b y, dsub rd c z)"


fun normSq_d :: "(real \<Rightarrow> dbl) \<Rightarrow> dpoint \<Rightarrow> dbl" where
  "normSq_d rd (x, y, z) = dadd rd (dadd rd (dmul rd x x) (dmul rd y y)) (dmul rd z z)"

definition vadd_d :: "(real \<Rightarrow> dbl) \<Rightarrow> nat \<Rightarrow> dvec \<Rightarrow> dvec \<Rightarrow> dvec" where
  "vadd_d rd N A B = (\<lambda>i. if i < N then dadd rd (A i) (B i) else A i)"


function Terms_power_d ::
  "(real \<Rightarrow> dbl) \<Rightarrow> nat \<Rightarrow> nat \<Rightarrow> nat \<Rightarrow> dvec \<Rightarrow> dpoint \<Rightarrow> dvec" where
  "Terms_power_d rd nx ny (Suc nz) C dst =
     (let C = Terms_power_d rd nx (Suc ny) nz C dst
      in C(Index_I nx ny (Suc nz) :=
             ddiv rd (dmul rd (C (Index_I nx ny nz)) (pnth_d dst 2)) (Fin (real (Suc nz)))))"
| "Terms_power_d rd nx (Suc ny) 0 C dst =
     (let C = Terms_power_d rd (Suc nx) 0 ny C dst
      in C(Index_I nx (Suc ny) 0 :=
             ddiv rd (dmul rd (C (Index_I nx ny 0)) (pnth_d dst 1)) (Fin (real (Suc ny)))))"
| "Terms_power_d rd (Suc nx) 0 0 C dst =
     (let C = Terms_power_d rd 0 0 nx C dst
      in C(Index_I (Suc nx) 0 0 :=
             ddiv rd (dmul rd (C (Index_I nx 0 0)) (pnth_d dst 0)) (Fin (real (Suc nx)))))"
| "Terms_power_d rd 0 0 0 C dst = C"
  by pat_completeness auto
termination
  by (relation "measures [\<lambda>(rd, nx, ny, nz, C, dst). nx + ny + nz,
                          \<lambda>(rd, nx, ny, nz, C, dst). ny + nz,
                          \<lambda>(rd, nx, ny, nz, C, dst). nz]") auto

definition DerivativeTerm_d ::
  "(real \<Rightarrow> dbl) \<Rightarrow> nat \<Rightarrow> nat \<Rightarrow> nat \<Rightarrow> nat \<Rightarrow> int \<Rightarrow> dvec \<Rightarrow> dpoint \<Rightarrow> dbl" where
  "DerivativeTerm_d rd n kx ky kz d C dst =
     (if d = - 1 then dmul rd (Fin (real_of_int (1 - int n))) (C (Index_I kx ky kz))
      else dmul rd (dmul rd (Fin (real_of_int (1 - 2 * int n))) (pnth_d dst (nat d)))
             (C (Index_I kx ky kz)))"

function DerivativeSum_d ::
  "(real \<Rightarrow> dbl) \<Rightarrow> nat \<Rightarrow> nat \<Rightarrow> nat \<Rightarrow> nat \<Rightarrow> nat \<Rightarrow> nat \<Rightarrow> nat \<Rightarrow> dvec \<Rightarrow> dpoint \<Rightarrow> dbl" where
  "DerivativeSum_d rd nx ny nz kx ky kz flag C dst =
     (if flag = 0 then Fin 0
      else if flag = 1 then
        (case kx of Suc kx1 \<Rightarrow>
           dadd rd
             (DerivativeSum_d rd nx ny nz kx1 ny nz (1 - of_bool (kx < nx \<or> kx = 1)) C dst)
             (DerivativeTerm_d rd (nx + ny + nz) kx1 ny nz
                (if int kx = int nx - 1 then - 1 else 0) C dst))
      else if flag = 2 then
        DerivativeSum_d rd nx ny nz nx ny nz (1 - of_bool (nx = 0)) C dst
      else if flag = 3 then
        (case ky of Suc ky1 \<Rightarrow>
           dadd rd
             (DerivativeSum_d rd nx ny nz nx ky1 nz (3 - of_bool (ky < ny \<or> ky = 1)) C dst)
             (DerivativeTerm_d rd (nx + ny + nz) nx ky1 nz
                (if int ky = int ny - 1 then - 1 else 1) C dst))
      else if flag = 4 then
        DerivativeSum_d rd nx ny nz nx ny nz (3 - of_bool (ny = 0)) C dst
      else if flag = 5 \<and> kz = 0 then
        DerivativeSum_d rd nx ny nz nx ny 0 4 C dst
      else
        (case kz of Suc kz1 \<Rightarrow>
           dadd rd
             (DerivativeSum_d rd nx ny nz nx ny kz1 (5 - of_bool (kz < nz \<or> kz = 1)) C dst)
             (DerivativeTerm_d rd (nx + ny + nz) nx ny kz1
                (if int kz = int nz - 1 then - 1 else 2) C dst)))"
  by pat_completeness auto
termination
  by (relation "measures [\<lambda>(rd, nx, ny, nz, kx, ky, kz, flag, C, dst). flag,
                          \<lambda>(rd, nx, ny, nz, kx, ky, kz, flag, C, dst).
                             if flag = 1 then kx else if flag = 3 then ky else kz]")
     (auto split: if_splits)

declare DerivativeSum_d.simps [simp del]

function Terms_derivative_d ::
  "(real \<Rightarrow> dbl) \<Rightarrow> nat \<Rightarrow> nat \<Rightarrow> nat \<Rightarrow> dvec \<Rightarrow> dpoint \<Rightarrow> dbl \<Rightarrow> dvec" where
  "Terms_derivative_d rd nx ny (Suc nz) C dst invR2 =
     (let C = Terms_derivative_d rd nx (Suc ny) nz C dst invR2
      in C(Index_I nx ny (Suc nz) :=
             dmul rd (ddiv rd (DerivativeSum_d rd nx ny (Suc nz) nx ny (Suc nz) 5 C dst)
                        (Fin (real (nx + ny + Suc nz)))) invR2))"
| "Terms_derivative_d rd nx (Suc ny) 0 C dst invR2 =
     (let C = Terms_derivative_d rd (Suc nx) 0 ny C dst invR2
      in C(Index_I nx (Suc ny) 0 :=
             dmul rd (ddiv rd (DerivativeSum_d rd nx (Suc ny) 0 nx (Suc ny) 0 5 C dst)
                        (Fin (real (nx + Suc ny)))) invR2))"
| "Terms_derivative_d rd (Suc nx) 0 0 C dst invR2 =
     (let C = Terms_derivative_d rd 0 0 nx C dst invR2
      in C(Index_I (Suc nx) 0 0 :=
             dmul rd (ddiv rd (DerivativeSum_d rd (Suc nx) 0 0 (Suc nx) 0 0 5 C dst)
                        (Fin (real (Suc nx)))) invR2))"
| "Terms_derivative_d rd 0 0 0 C dst invR2 = C"
  by pat_completeness auto
termination
  by (relation "measures [\<lambda>(rd, nx, ny, nz, C, dst, invR2). nx + ny + nz,
                          \<lambda>(rd, nx, ny, nz, C, dst, invR2). ny + nz,
                          \<lambda>(rd, nx, ny, nz, C, dst, invR2). nz]") auto

function Terms_scale_d :: "(real \<Rightarrow> dbl) \<Rightarrow> nat \<Rightarrow> nat \<Rightarrow> nat \<Rightarrow> dvec \<Rightarrow> dvec" where
  "Terms_scale_d rd nx ny (Suc nz) C =
     (let C = Terms_scale_d rd nx (Suc ny) nz C
      in C(Index_I nx ny (Suc nz) :=
             dmul rd (C (Index_I nx ny (Suc nz))) (Fin (Index_F nx ny (Suc nz)))))"
| "Terms_scale_d rd nx (Suc ny) 0 C =
     (let C = Terms_scale_d rd (Suc nx) 0 ny C
      in C(Index_I nx (Suc ny) 0 :=
             dmul rd (C (Index_I nx (Suc ny) 0)) (Fin (Index_F nx (Suc ny) 0))))"
| "Terms_scale_d rd (Suc nx) 0 0 C =
     (let C = Terms_scale_d rd 0 0 nx C
      in C(Index_I (Suc nx) 0 0 :=
             dmul rd (C (Index_I (Suc nx) 0 0)) (Fin (Index_F (Suc nx) 0 0))))"
| "Terms_scale_d rd 0 0 0 C = C"
  by pat_completeness auto
termination
  by (relation "measures [\<lambda>(rd, nx, ny, nz, C). nx + ny + nz,
                          \<lambda>(rd, nx, ny, nz, C). ny + nz,
                          \<lambda>(rd, nx, ny, nz, C). nz]") auto

definition getCoef_d :: "(real \<Rightarrow> dbl) \<Rightarrow> nat \<Rightarrow> dvec \<Rightarrow> dpoint \<Rightarrow> dbl \<Rightarrow> dbl \<Rightarrow> dvec" where
  "getCoef_d rd P C dst invR2 invR =
     (let C = C(0 := invR);
          C = Terms_derivative_d rd 0 0 P C dst invR2
      in Terms_scale_d rd 0 0 P C)"

function M2MSum_d ::
  "(real \<Rightarrow> dbl) \<Rightarrow> nat \<Rightarrow> nat \<Rightarrow> nat \<Rightarrow> nat \<Rightarrow> nat \<Rightarrow> nat \<Rightarrow> dvec \<Rightarrow> dvec \<Rightarrow> dbl" where
  "M2MSum_d rd nx ny nz kx ky (Suc kz) C M =
     dadd rd (M2MSum_d rd nx ny nz kx ky kz C M)
       (dmul rd (C (Index_I (nx - kx) (ny - ky) (nz - Suc kz))) (M (Index_I kx ky (Suc kz))))"
| "M2MSum_d rd nx ny nz kx (Suc ky) 0 C M =
     dadd rd (M2MSum_d rd nx ny nz kx ky nz C M)
       (dmul rd (C (Index_I (nx - kx) (ny - Suc ky) nz)) (M (Index_I kx (Suc ky) 0)))"
| "M2MSum_d rd nx ny nz (Suc kx) 0 0 C M =
     dadd rd (M2MSum_d rd nx ny nz kx ny nz C M)
       (dmul rd (C (Index_I (nx - Suc kx) ny nz)) (M (Index_I (Suc kx) 0 0)))"
| "M2MSum_d rd nx ny nz 0 0 0 C M = Fin 0"
  by pat_completeness auto
termination
  by (relation "measures [\<lambda>(rd, nx, ny, nz, kx, ky, kz, C, M). kx,
                          \<lambda>(rd, nx, ny, nz, kx, ky, kz, C, M). ky,
                          \<lambda>(rd, nx, ny, nz, kx, ky, kz, C, M). kz]") auto

function M2LSum_d ::
  "(real \<Rightarrow> dbl) \<Rightarrow> nat \<Rightarrow> nat \<Rightarrow> nat \<Rightarrow> nat \<Rightarrow> nat \<Rightarrow> nat \<Rightarrow> dvec \<Rightarrow> dvec \<Rightarrow> dbl" where
  "M2LSum_d rd nx ny nz kx ky (Suc kz) L M =
     dadd rd (M2LSum_d rd nx ny nz kx (Suc ky) kz L M)
       (dmul rd (M (Index_I kx ky (Suc kz))) (L (Index_I (nx + kx) (ny + ky) (nz + Suc kz))))"
| "M2LSum_d rd nx ny nz kx (Suc ky) 0 L M =
     dadd rd (M2LSum_d rd nx ny nz (Suc kx) 0 ky L M)
       (dmul rd (M (Index_I kx (Suc ky) 0)) (L (Index_I (nx + kx) (ny + Suc ky) nz)))"
| "M2LSum_d rd nx ny nz (Suc kx) 0 0 L M =
     dadd rd (M2LSum_d rd nx ny nz 0 0 kx L M)
       (dmul rd (M (Index_I (Suc kx) 0 0)) (L (Index_I (nx + Suc kx) ny nz)))"
| "M2LSum_d rd nx ny nz 0 0 0 L M = Fin 0"
  by pat_completeness auto
termination
  by (relation "measures [\<lambda>(rd, nx, ny, nz, kx, ky, kz, L, M). kx + ky + kz,
                          \<lambda>(rd, nx, ny, nz, kx, ky, kz, L, M). ky + kz,
                          \<lambda>(rd, nx, ny, nz, kx, ky, kz, L, M). kz]") auto

function LocalSum_d ::
  "(real \<Rightarrow> dbl) \<Rightarrow> nat \<Rightarrow> nat \<Rightarrow> nat \<Rightarrow> nat \<Rightarrow> nat \<Rightarrow> nat \<Rightarrow> dvec \<Rightarrow> dvec \<Rightarrow> dbl" where
  "LocalSum_d rd nx ny nz kx ky (Suc kz) C L =
     dadd rd (LocalSum_d rd nx ny nz kx (Suc ky) kz C L)
       (dmul rd (C (Index_I kx ky (Suc kz))) (L (Index_I (nx + kx) (ny + ky) (nz + Suc kz))))"
| "LocalSum_d rd nx ny nz kx (Suc ky) 0 C L =
     dadd rd (LocalSum_d rd nx ny nz (Suc kx) 0 ky C L)
       (dmul rd (C (Index_I kx (Suc ky) 0)) (L (Index_I (nx + kx) (ny + Suc ky) nz)))"
| "LocalSum_d rd nx ny nz (Suc kx) 0 0 C L =
     dadd rd (LocalSum_d rd nx ny nz 0 0 kx C L)
       (dmul rd (C (Index_I (Suc kx) 0 0)) (L (Index_I (nx + Suc kx) ny nz)))"
| "LocalSum_d rd nx ny nz 0 0 0 C L = Fin 0"
  by pat_completeness auto
termination
  by (relation "measures [\<lambda>(rd, nx, ny, nz, kx, ky, kz, C, L). kx + ky + kz,
                          \<lambda>(rd, nx, ny, nz, kx, ky, kz, C, L). ky + kz,
                          \<lambda>(rd, nx, ny, nz, kx, ky, kz, C, L). kz]") auto

function Upward_M2M_d ::
  "(real \<Rightarrow> dbl) \<Rightarrow> nat \<Rightarrow> nat \<Rightarrow> nat \<Rightarrow> dvec \<Rightarrow> dvec \<Rightarrow> dvec \<Rightarrow> dvec" where
  "Upward_M2M_d rd nx ny (Suc nz) MI C MJ =
     (let MI = Upward_M2M_d rd nx (Suc ny) nz MI C MJ
      in MI(Index_I nx ny (Suc nz) :=
              dadd rd (MI (Index_I nx ny (Suc nz)))
                (M2MSum_d rd nx ny (Suc nz) nx ny (Suc nz) C MJ)))"
| "Upward_M2M_d rd nx (Suc ny) 0 MI C MJ =
     (let MI = Upward_M2M_d rd (Suc nx) 0 ny MI C MJ
      in MI(Index_I nx (Suc ny) 0 :=
              dadd rd (MI (Index_I nx (Suc ny) 0))
                (M2MSum_d rd nx (Suc ny) 0 nx (Suc ny) 0 C MJ)))"
| "Upward_M2M_d rd (Suc nx) 0 0 MI C MJ =
     (let MI = Upward_M2M_d rd 0 0 nx MI C MJ
      in MI(Index_I (Suc nx) 0 0 :=
              dadd rd (MI (Index_I (Suc nx) 0 0))
                (M2MSum_d rd (Suc nx) 0 0 (Suc nx) 0 0 C MJ)))"
| "Upward_M2M_d rd 0 0 0 MI C MJ = MI"
  by pat_completeness auto
termination
  by (relation "measures [\<lambda>(rd, nx, ny, nz, MI, C, MJ). nx + ny + nz,
                          \<lambda>(rd, nx, ny, nz, MI, C, MJ). ny + nz,
                          \<lambda>(rd, nx, ny, nz, MI, C, MJ). nz]") auto

text \<open>\<^verbatim>\<open>Downward<P,nx,ny,nz>::M2L\<close> and \<^verbatim>\<open>::M2P\<close> run the same recursion with the same
  sum, \<^verbatim>\<open>::L2L\<close> and \<^verbatim>\<open>::L2P\<close> likewise: one function for each pair.\<close>

function Downward_M2L_d ::
  "(real \<Rightarrow> dbl) \<Rightarrow> nat \<Rightarrow> nat \<Rightarrow> nat \<Rightarrow> nat \<Rightarrow> dvec \<Rightarrow> dvec \<Rightarrow> dvec \<Rightarrow> dvec" where
  "Downward_M2L_d rd P nx ny (Suc nz) L C M =
     (let L = Downward_M2L_d rd P nx (Suc ny) nz L C M
      in L(Index_I nx ny (Suc nz) :=
             dadd rd (L (Index_I nx ny (Suc nz)))
               (M2LSum_d rd nx ny (Suc nz) 0 0 (P - nx - ny - Suc nz) C M)))"
| "Downward_M2L_d rd P nx (Suc ny) 0 L C M =
     (let L = Downward_M2L_d rd P (Suc nx) 0 ny L C M
      in L(Index_I nx (Suc ny) 0 :=
             dadd rd (L (Index_I nx (Suc ny) 0))
               (M2LSum_d rd nx (Suc ny) 0 0 0 (P - nx - Suc ny) C M)))"
| "Downward_M2L_d rd P (Suc nx) 0 0 L C M =
     (let L = Downward_M2L_d rd P 0 0 nx L C M
      in L(Index_I (Suc nx) 0 0 :=
             dadd rd (L (Index_I (Suc nx) 0 0))
               (M2LSum_d rd (Suc nx) 0 0 0 0 (P - Suc nx) C M)))"
| "Downward_M2L_d rd P 0 0 0 L C M = L"
  by pat_completeness auto
termination
  by (relation "measures [\<lambda>(rd, P, nx, ny, nz, L, C, M). nx + ny + nz,
                          \<lambda>(rd, P, nx, ny, nz, L, C, M). ny + nz,
                          \<lambda>(rd, P, nx, ny, nz, L, C, M). nz]") auto

function Downward_L2L_d ::
  "(real \<Rightarrow> dbl) \<Rightarrow> nat \<Rightarrow> nat \<Rightarrow> nat \<Rightarrow> nat \<Rightarrow> dvec \<Rightarrow> dvec \<Rightarrow> dvec \<Rightarrow> dvec" where
  "Downward_L2L_d rd P nx ny (Suc nz) LI C LJ =
     (let LI = Downward_L2L_d rd P nx (Suc ny) nz LI C LJ
      in LI(Index_I nx ny (Suc nz) :=
              dadd rd (LI (Index_I nx ny (Suc nz)))
                (LocalSum_d rd nx ny (Suc nz) 0 0 (P - nx - ny - Suc nz) C LJ)))"
| "Downward_L2L_d rd P nx (Suc ny) 0 LI C LJ =
     (let LI = Downward_L2L_d rd P (Suc nx) 0 ny LI C LJ
      in LI(Index_I nx (Suc ny) 0 :=
              dadd rd (LI (Index_I nx (Suc ny) 0))
                (LocalSum_d rd nx (Suc ny) 0 0 0 (P - nx - Suc ny) C LJ)))"
| "Downward_L2L_d rd P (Suc nx) 0 0 LI C LJ =
     (let LI = Downward_L2L_d rd P 0 0 nx LI C LJ
      in LI(Index_I (Suc nx) 0 0 :=
              dadd rd (LI (Index_I (Suc nx) 0 0))
                (LocalSum_d rd (Suc nx) 0 0 0 0 (P - Suc nx) C LJ)))"
| "Downward_L2L_d rd P 0 0 0 LI C LJ = LI"
  by pat_completeness auto
termination
  by (relation "measures [\<lambda>(rd, P, nx, ny, nz, LI, C, LJ). nx + ny + nz,
                          \<lambda>(rd, P, nx, ny, nz, LI, C, LJ). ny + nz,
                          \<lambda>(rd, P, nx, ny, nz, LI, C, LJ). nz]") auto

definition sumM2L_d :: "(real \<Rightarrow> dbl) \<Rightarrow> nat \<Rightarrow> dvec \<Rightarrow> dvec \<Rightarrow> dvec \<Rightarrow> dvec" where
  "sumM2L_d rd P L C M =
     (let L = vadd_d rd (LTERM P) L C;
          L = fold (\<lambda>i L. L(0 := dadd rd (L 0) (dmul rd (M i) (C i))))
                [1 ..< P * (P + 1) * (P + 2) div 6] L
      in Downward_M2L_d rd P 0 0 (P - 1) L C M)"

definition sumM2P_d :: "(real \<Rightarrow> dbl) \<Rightarrow> nat \<Rightarrow> dvec \<Rightarrow> dvec \<Rightarrow> dvec \<Rightarrow> dvec" where
  "sumM2P_d rd P B C M =
     (let B = B(0 := dadd rd (B 0) (C 0));
          B = B(1 := dadd rd (B 1) (C 1));
          B = B(2 := dadd rd (B 2) (C 2));
          B = B(3 := dadd rd (B 3) (C 3));
          B = fold (\<lambda>i B. B(0 := dadd rd (B 0) (dmul rd (M i) (C i))))
                [1 ..< P * (P + 1) * (P + 2) div 6] B
      in Downward_M2L_d rd P 0 0 1 B C M)"

definition P2M_d :: "(real \<Rightarrow> dbl) \<Rightarrow> nat \<Rightarrow> dpoint \<Rightarrow> dbl \<Rightarrow> dpoint \<Rightarrow> dvec \<Rightarrow> dvec" where
  "P2M_d rd P source charge cen M =
     (let dst = psub_d rd cen source;
          C = dzero(0 := charge);
          C = Terms_power_d rd 0 0 (P - 1) C dst
      in vadd_d rd (MTERM P) M C)"

definition M2M_d :: "(real \<Rightarrow> dbl) \<Rightarrow> nat \<Rightarrow> dvec \<Rightarrow> dvec \<Rightarrow> dpoint \<Rightarrow> dvec" where
  "M2M_d rd P Msource Mtarget translation =
     (let C = dzero(0 := Fin 1);
          C = Terms_power_d rd 0 0 (P - 1) C translation;
          Mtarget = fold (\<lambda>i Mt. Mt(i := dadd rd (Mt i) (dmul rd (C i) (Msource 0))))
                      [0 ..< MTERM P] Mtarget
      in Upward_M2M_d rd 0 0 (P - 1) Mtarget C Msource)"

definition M2L_d :: "(real \<Rightarrow> dbl) \<Rightarrow> nat \<Rightarrow> dvec \<Rightarrow> dvec \<Rightarrow> dpoint \<Rightarrow> dvec" where
  "M2L_d rd P M L translation =
     (let invR2 = ddiv rd (Fin 1) (normSq_d rd translation);
          invR = dmul rd (M 0) (dsqrt rd invR2);
          C = getCoef_d rd P dzero translation invR2 invR
      in sumM2L_d rd P L C M)"

definition M2P_d :: "(real \<Rightarrow> dbl) \<Rightarrow> nat \<Rightarrow> dvec \<Rightarrow> dpoint \<Rightarrow> dpoint \<Rightarrow> dvec \<Rightarrow> dvec" where
  "M2P_d rd P M cen target result =
     (let dst = psub_d rd target cen;
          invR2 = ddiv rd (Fin 1) (normSq_d rd dst);
          invR = dmul rd (M 0) (dsqrt rd invR2);
          C = getCoef_d rd P dzero dst invR2 invR
      in sumM2P_d rd P result C M)"

definition L2L_d :: "(real \<Rightarrow> dbl) \<Rightarrow> nat \<Rightarrow> dvec \<Rightarrow> dvec \<Rightarrow> dpoint \<Rightarrow> dvec" where
  "L2L_d rd P Lsource Ltarget translation =
     (let C = dzero(0 := Fin 1);
          C = Terms_power_d rd 0 0 P C translation;
          Ltarget = vadd_d rd (LTERM P) Ltarget Lsource;
          Ltarget = fold (\<lambda>i Lt. Lt(0 := dadd rd (Lt 0) (dmul rd (C i) (Lsource i))))
                      [1 ..< LTERM P] Ltarget
      in Downward_L2L_d rd P 0 0 (P - 1) Ltarget C Lsource)"

definition L2P_d :: "(real \<Rightarrow> dbl) \<Rightarrow> nat \<Rightarrow> dvec \<Rightarrow> dpoint \<Rightarrow> dpoint \<Rightarrow> dvec \<Rightarrow> dvec" where
  "L2P_d rd P L cen target result =
     (let dst = psub_d rd target cen;
          C = dzero(0 := Fin 1);
          C = Terms_power_d rd 0 0 P C dst;
          result = result(0 := dadd rd (result 0) (L 0));
          result = result(1 := dadd rd (result 1) (L 1));
          result = result(2 := dadd rd (result 2) (L 2));
          result = result(3 := dadd rd (result 3) (L 3));
          result = fold (\<lambda>i r. r(0 := dadd rd (r 0) (dmul rd (C i) (L i)))) [1 ..< LTERM P] result
      in Downward_L2L_d rd P 0 0 1 result C L)"

text \<open>The products of the coefficients \<open>1 - 2 n\<close> with the components of the displacement
  are finite.\<close>

definition scalable :: "(real \<Rightarrow> dbl) \<Rightarrow> nat \<Rightarrow> dpoint \<Rightarrow> bool" where
  "scalable rd P dst \<longleftrightarrow>
     (\<forall>n k. n \<le> P \<longrightarrow> is_fin (dmul rd (Fin (real_of_int (1 - 2 * int n))) (pnth_d dst k)))"

text \<open>The instantiations of \<^verbatim>\<open>DerivativeSum\<close> reached from \<^verbatim>\<open>DerivativeSum<nx,ny,nz>\<close>: the
  flag is at most 5, and a flag of 1 or 3 comes with a positive \<open>kx\<close> or \<open>ky\<close>.\<close>

definition reached :: "nat \<Rightarrow> nat \<Rightarrow> nat \<Rightarrow> bool" where
  "reached kx ky flag \<longleftrightarrow> flag \<le> 5 \<and> (flag = 1 \<longrightarrow> 1 \<le> kx) \<and> (flag = 3 \<longrightarrow> 1 \<le> ky)"

section \<open>Accumulation into the output vector\<close>

text \<open>An operation on the output vector accumulates when each slot of its result is the
  prior content of the slot with a list of increments added to it one after the other,
  each addition rounded, the increments not depending on the prior contents of the vector.\<close>

definition accumulates :: "(real \<Rightarrow> dbl) \<Rightarrow> (dvec \<Rightarrow> dvec) \<Rightarrow> bool" where
  "accumulates rd F \<longleftrightarrow> (\<exists>incs. \<forall>V i. F V i = foldl (dadd rd) (V i) (incs i))"

text \<open>What accumulation gives in exact arithmetic: wherever the results are finite, the
  amount added to a slot is the same for any two prior contents, and a second invocation
  adds it a second time.\<close>

definition exact_delta :: "(dvec \<Rightarrow> dvec) \<Rightarrow> bool" where
  "exact_delta F \<longleftrightarrow>
     (\<forall>V W i a b z. V i = Fin a \<and> W i = Fin b \<and> F V i = Fin z \<longrightarrow>
        F W i = Fin (b + (z - a)) \<and> F (F V) i = Fin (a + 2 * (z - a)))"

section \<open>Upward pass over a tree of boxes, in double precision\<close>

text \<open>Modelled from the spec: the tree layer is not among the sources. The same tree and
  the same upward pass as above, over doubles: the bodies of a leaf are accumulated by
  \<^verbatim>\<open>P2M\<close> in list order, the children of a box by \<^verbatim>\<open>M2M\<close> in list order, each into an
  expansion created zeroed.\<close>

datatype dbox = DLeaf dpoint "(dpoint \<times> dbl) list" | DBox dpoint "dbox list"

fun center_d :: "dbox \<Rightarrow> dpoint" where
  "center_d (DLeaf c bodies) = c"
| "center_d (DBox c children) = c"

fun upward_d :: "(real \<Rightarrow> dbl) \<Rightarrow> nat \<Rightarrow> dbox \<Rightarrow> dvec" where
  "upward_d rd P (DLeaf c bodies) = fold (\<lambda>(s, q) M. P2M_d rd P s q c M) bodies dzero"
| "upward_d rd P (DBox c children) =
     fold (\<lambda>child M. M2M_d rd P (upward_d rd P child) M (psub_d rd c (center_d child)))
       children dzero"

fun charges_d :: "dbox \<Rightarrow> dbl list" where
  "charges_d (DLeaf c bodies) = map snd bodies"
| "charges_d (DBox c children) = concat (map charges_d children)"



lemma two_tri: "2 * tri m = m * (m + 1)"
  unfolding tri_def by simp

lemma tri_Suc: "tri (Suc m) = tri m + Suc m"
  using two_tri [of m] two_tri [of "Suc m"] by simp

lemma six_tet: "6 * tet n = n * (n + 1) * (n + 2)"
proof -
  have "6 dvd n * (n + 1) * (n + 2)"
  proof (induction n)
    case 0 show ?case by simp
  next
    case (Suc n)
    have "Suc n * (Suc n + 1) * (Suc n + 2) = n * (n + 1) * (n + 2) + 6 * tri (Suc n)"
      using two_tri [of "Suc n"] by (simp add: algebra_simps)
    moreover have "6 dvd n * (n + 1) * (n + 2) + 6 * tri (Suc n)"
      using Suc by (rule dvd_add) (rule dvd_triv_left)
    ultimately show ?case by (simp only:)
  qed
  then show ?thesis unfolding tet_def by simp
qed

lemma tet_Suc: "tet (Suc n) = tet n + tri (Suc n)"
  using six_tet [of n] six_tet [of "Suc n"] two_tri [of "Suc n"] by (simp add: algebra_simps)

lemma tri_mono: "a \<le> b \<Longrightarrow> tri a \<le> tri b"
  by (induction b) (auto simp: tri_Suc le_Suc_eq)

lemma tet_mono: "a \<le> b \<Longrightarrow> tet a \<le> tet b"
  by (induction b) (auto simp: tet_Suc le_Suc_eq)



lemma unat_of_nat32: "k < 2 ^ 32 \<Longrightarrow> unat (of_nat k :: u32) = k"
  by (simp add: unat_of_nat)

lemma prod3_bound:
  fixes n :: nat
  assumes "n \<le> b"
  shows "n * (n + 1) * (n + 2) \<le> b * (b + 1) * (b + 2)"
  using assms by (intro mult_le_mono) simp_all

lemma prod2_bound:
  fixes n :: nat
  assumes "n \<le> b"
  shows "n * (n + 1) \<le> b * (b + 1)"
  using assms by (intro mult_le_mono) simp_all

lemma unat_tet_word:
  assumes "n \<le> 1624"
  shows "unat ((of_nat n * (of_nat n + 1) * (of_nat n + 2)) div 6 :: u32) = tet n"
proof -
  have "n * (n + 1) * (n + 2) \<le> 1624 * (1624 + 1) * (1624 + 2)"
    using assms by (rule prod3_bound)
  then have lt: "n * (n + 1) * (n + 2) < 2 ^ 32" by simp
  have "(of_nat n * (of_nat n + 1) * (of_nat n + 2) :: u32) = of_nat (n * (n + 1) * (n + 2))"
    by (simp only: of_nat_mult of_nat_add of_nat_1 of_nat_numeral)
  then show ?thesis
    using lt by (simp only: unat_div unat_of_nat32 tet_def) simp
qed

lemma unat_tri_word:
  assumes "m \<le> 1624"
  shows "unat ((of_nat m * (of_nat m + 1)) div 2 :: u32) = tri m"
proof -
  have "m * (m + 1) \<le> 1624 * (1624 + 1)"
    using assms by (rule prod2_bound)
  then have lt: "m * (m + 1) < 2 ^ 32" by simp
  have "(of_nat m * (of_nat m + 1) :: u32) = of_nat (m * (m + 1))"
    by (simp only: of_nat_mult of_nat_add of_nat_1)
  then show ?thesis
    using lt by (simp only: unat_div unat_of_nat32 tri_def) simp
qed

lemma tet_bound: "n \<le> 1624 \<Longrightarrow> tet n \<le> 715169000"
proof -
  assume "n \<le> 1624"
  then have "tet n \<le> tet 1624" by (rule tet_mono)
  also have "tet 1624 = 715169000" by (simp add: tet_def)
  finally show ?thesis .
qed

lemma tri_bound: "m \<le> 1624 \<Longrightarrow> tri m \<le> 1319500"
proof -
  assume "m \<le> 1624"
  then have "tri m \<le> tri 1624" by (rule tri_mono)
  also have "tri 1624 = 1319500" by (simp add: tri_def)
  finally show ?thesis .
qed

lemma Index_I_exact:
  assumes "nx + ny + nz \<le> 1624"
  shows "Index_I nx ny nz = I_spec nx ny nz"
proof -
  let ?n = "nx + ny + nz" and ?m = "ny + nz"
  have n: "?n \<le> 1624" and m: "?m \<le> 1624" and z: "nz \<le> 1624" using assms by simp_all
  define A :: u32 where "A = (of_nat ?n * (of_nat ?n + 1) * (of_nat ?n + 2)) div 6"
  define B :: u32 where "B = (of_nat ?m * (of_nat ?m + 1)) div 2"
  define Z :: u32 where "Z = of_nat nz"
  have A: "unat A = tet ?n" unfolding A_def using n by (rule unat_tet_word)
  have B: "unat B = tri ?m" unfolding B_def using m by (rule unat_tri_word)
  have Z: "unat Z = nz" unfolding Z_def using z by (simp add: unat_of_nat32)
  have "unat (A + B) = (tet ?n + tri ?m) mod 2 ^ 32"
    by (simp only: unat_word_ariths(1) A B) simp
  then have AB: "unat (A + B) = tet ?n + tri ?m"
    using tet_bound [OF n] tri_bound [OF m] by simp
  have "unat (A + B + Z) = (tet ?n + tri ?m + nz) mod 2 ^ 32"
    by (simp only: unat_word_ariths(1) [of "A + B" Z] AB Z) simp
  then have ABZ: "unat (A + B + Z) = tet ?n + tri ?m + nz"
    using tet_bound [OF n] tri_bound [OF m] z by simp
  have "cart_index (of_nat nx) (of_nat ny) (of_nat nz) = A + B + Z"
    by (simp only: cart_index_def of_nat_add A_def B_def Z_def)
  with ABZ show ?thesis
    by (simp only: Index_I_def I_spec_def)
qed

lemma factorial_fact: "factorial w = of_nat (fact (unat w))"
proof (induction w rule: factorial.induct)
  case (1 k)
  show ?case
  proof (cases "k \<le> 1")
    case True
    then have "unat k \<le> 1" by (simp add: word_le_nat_alt)
    then have "unat k = 0 \<or> unat k = 1" by auto
    then have "fact (unat k) = (1::nat)" by auto
    then show ?thesis using True by (simp add: factorial.simps [of k])
  next
    case False
    then have gt: "1 < unat k" by (simp add: not_le word_less_nat_alt)
    then have k0: "k \<noteq> 0" by auto
    have pred: "unat (k - 1) = unat k - 1" using k0 by (rule unat_minus_one)
    from gt obtain j where j: "unat k = Suc j" by (cases "unat k") auto
    have "factorial k = k * factorial (k - 1)"
      using False by (simp add: factorial.simps [of k])
    also have "\<dots> = of_nat (unat k) * of_nat (fact (unat k - 1))"
      using 1 [OF False] pred by simp
    also have "\<dots> = of_nat (unat k * fact (unat k - 1))"
      by (simp only: of_nat_mult)
    also have "unat k * fact (unat k - 1) = fact (unat k)"
      by (simp add: j)
    finally show ?thesis .
  qed
qed

lemma factorial_34: "factorial 34 = 0"
proof -
  have "(2::nat) ^ 32 dvd fact 34"
    by (simp add: fact_numeral)
  then show ?thesis
    by (simp add: factorial_fact word_of_nat_eq_0_iff)
qed


lemma I_spec_step_z: "I_spec nx ny (Suc nz) = Suc (I_spec nx (Suc ny) nz)"
  by (simp add: I_spec_def)

lemma I_spec_step_y: "I_spec nx (Suc ny) 0 = Suc (I_spec (Suc nx) 0 ny)"
  by (simp add: I_spec_def tri_Suc)

lemma I_spec_step_x: "I_spec (Suc nx) 0 0 = Suc (I_spec 0 0 nx)"
  by (simp add: I_spec_def tri_Suc tet_Suc tri_def)

lemma I_spec_zero [simp]: "I_spec 0 0 0 = 0"
  by (simp add: I_spec_def tri_def tet_def)

lemma I_spec_lower: "tet (nx + ny + nz) \<le> I_spec nx ny nz"
  by (simp add: I_spec_def)

lemma I_spec_upper: "I_spec nx ny nz < tet (Suc (nx + ny + nz))"
proof -
  have "tri (ny + nz) \<le> tri (nx + ny + nz)" by (rule tri_mono) simp
  then show ?thesis by (simp add: I_spec_def tet_Suc tri_Suc)
qed

lemma I_spec_top: "Suc (I_spec 0 0 D) = tet (Suc D)"
  by (simp add: I_spec_def tet_Suc tri_Suc)

lemma tet_strict: "a < b \<Longrightarrow> tet a < tet b"
proof -
  assume "a < b"
  then have "Suc a \<le> b" by simp
  then have "tet (Suc a) \<le> tet b" by (rule tet_mono)
  moreover have "tet a < tet (Suc a)" by (simp add: tet_Suc tri_Suc)
  ultimately show ?thesis by simp
qed

lemma tri_strict: "a < b \<Longrightarrow> tri a < tri b"
proof -
  assume "a < b"
  then have "Suc a \<le> b" by simp
  then have "tri (Suc a) \<le> tri b" by (rule tri_mono)
  moreover have "tri a < tri (Suc a)" by (simp add: tri_Suc)
  ultimately show ?thesis by simp
qed

lemma I_spec_degree_le:
  "I_spec a b c \<le> I_spec nx ny nz \<Longrightarrow> a + b + c \<le> nx + ny + nz"
proof (rule ccontr)
  assume le: "I_spec a b c \<le> I_spec nx ny nz" and "\<not> a + b + c \<le> nx + ny + nz"
  then have "Suc (nx + ny + nz) \<le> a + b + c" by simp
  then have "tet (Suc (nx + ny + nz)) \<le> tet (a + b + c)" by (rule tet_mono)
  with I_spec_upper [of nx ny nz] I_spec_lower [of a b c] le show False by simp
qed

lemma I_spec_degree_lt:
  "a + b + c < nx + ny + nz \<Longrightarrow> I_spec a b c < I_spec nx ny nz"
proof -
  assume "a + b + c < nx + ny + nz"
  then have "tet (Suc (a + b + c)) \<le> tet (nx + ny + nz)" by (intro tet_mono) simp
  with I_spec_upper [of a b c] I_spec_lower [of nx ny nz] show ?thesis by simp
qed

lemma I_spec_inj:
  assumes "I_spec a b c = I_spec nx ny nz"
  shows "a = nx \<and> b = ny \<and> c = nz"
proof -
  have n: "a + b + c = nx + ny + nz"
    using I_spec_degree_le [of a b c nx ny nz] I_spec_degree_le [of nx ny nz a b c] assms by simp
  then have e: "tri (b + c) + c = tri (ny + nz) + nz"
    using assms by (simp add: I_spec_def)
  have m: "b + c = ny + nz"
  proof (rule ccontr)
    assume ne: "b + c \<noteq> ny + nz"
    show False
    proof (cases "b + c < ny + nz")
      case True
      then have "tri (Suc (b + c)) \<le> tri (ny + nz)" by (intro tri_mono) simp
      with e show False by (simp add: tri_Suc)
    next
      case False
      with ne have "ny + nz < b + c" by simp
      then have "tri (Suc (ny + nz)) \<le> tri (b + c)" by (intro tri_mono) simp
      with e show False by (simp add: tri_Suc)
    qed
  qed
  with e have "c = nz" by simp
  with m n show ?thesis by simp
qed

lemma I_spec_le_top: "I_spec a b c \<le> I_spec 0 0 D \<longleftrightarrow> a + b + c \<le> D"
proof
  assume "I_spec a b c \<le> I_spec 0 0 D"
  from I_spec_degree_le [OF this] show "a + b + c \<le> D" by simp
next
  assume "a + b + c \<le> D"
  then have "tet (Suc (a + b + c)) \<le> tet (Suc D)" by (intro tet_mono) simp
  with I_spec_upper [of a b c] I_spec_top [of D] show "I_spec a b c \<le> I_spec 0 0 D" by simp
qed

lemma I_spec_surj: "\<exists>a b c. I_spec a b c = i"
proof (induction i)
  case 0
  have "I_spec 0 0 0 = 0" by simp
  then show ?case by blast
next
  case (Suc i)
  then obtain a b c where abc: "I_spec a b c = i" by blast
  show ?case
  proof (cases b)
    case (Suc b')
    then have "I_spec a b' (Suc c) = Suc i" using abc by (simp add: I_spec_step_z)
    then show ?thesis by blast
  next
    case 0
    show ?thesis
    proof (cases a)
      case (Suc a')
      then have "I_spec a' (Suc c) 0 = Suc i" using abc 0 by (simp add: I_spec_step_y)
      then show ?thesis by blast
    next
      case a0: 0
      then have "I_spec (Suc c) 0 0 = Suc i" using abc 0 by (simp add: I_spec_step_x)
      then show ?thesis by blast
    qed
  qed
qed


lemma slot_values:
  "Index_I 1 0 0 = 1" "Index_I 0 1 0 = 2" "Index_I 0 0 1 = 3" "Index_I 1 1 0 = 5"
  "Index_I 0 0 0 = 0"
  by (simp_all add: Index_I_exact I_spec_def tet_def tri_def)

lemma slot_values_Suc:
  "Index_I (Suc 0) 0 0 = 1" "Index_I 0 (Suc 0) 0 = 2" "Index_I 0 0 (Suc 0) = 3"
  "Index_I (Suc 0) (Suc 0) 0 = 5"
  using slot_values by simp_all



lemma rev_upt_Suc1: "rev [1..<Suc (Suc j)] = Suc j # rev [1..<Suc j]"
  by simp

lemma below_slots: "map I3 (below nx ny nz) = rev [1..<Suc (I_spec nx ny nz)]"
proof (induction nx ny nz rule: below.induct)
  case (1 nx ny nz)
  then show ?case by (simp only: below.simps list.map prod.case I_spec_step_z rev_upt_Suc1)
next
  case (2 nx ny)
  then show ?case by (simp only: below.simps list.map prod.case I_spec_step_y rev_upt_Suc1)
next
  case (3 nx)
  then show ?case by (simp only: below.simps list.map prod.case I_spec_step_x rev_upt_Suc1)
next
  case 4
  show ?case by simp
qed



lemma below_set:
  "set (below nx ny nz) = {(a, b, c). (a, b, c) \<noteq> (0, 0, 0) \<and> I_spec a b c \<le> I_spec nx ny nz}"
proof -
  have img: "I3 ` set (below nx ny nz) = {1 .. I_spec nx ny nz}"
    using below_slots [of nx ny nz] by (metis atLeastLessThanSuc_atLeastAtMost set_map set_rev set_upt)
  show ?thesis
  proof (intro set_eqI iffI)
    fix k assume k: "k \<in> set (below nx ny nz)"
    obtain a b c where abc: "k = (a, b, c)" by (cases k)
    from k img have "I3 k \<in> {1 .. I_spec nx ny nz}" by blast
    then have "1 \<le> I_spec a b c" "I_spec a b c \<le> I_spec nx ny nz" using abc by simp_all
    moreover have "(a, b, c) \<noteq> (0, 0, 0)"
    proof
      assume "(a, b, c) = (0, 0, 0)"
      then have "I_spec a b c = 0" by simp
      with \<open>1 \<le> I_spec a b c\<close> show False by simp
    qed
    ultimately show "k \<in> {(a, b, c). (a, b, c) \<noteq> (0, 0, 0) \<and> I_spec a b c \<le> I_spec nx ny nz}"
      using abc by simp
  next
    fix k assume "k \<in> {(a, b, c). (a, b, c) \<noteq> (0, 0, 0) \<and> I_spec a b c \<le> I_spec nx ny nz}"
    then obtain a b c where abc: "k = (a, b, c)" and ne: "(a, b, c) \<noteq> (0, 0, 0)"
      and le: "I_spec a b c \<le> I_spec nx ny nz" by auto
    have "I_spec a b c \<noteq> 0"
    proof
      assume "I_spec a b c = 0"
      then have "I_spec a b c = I_spec 0 0 0" by simp
      from I_spec_inj [OF this] ne show False by simp
    qed
    with le have "I_spec a b c \<in> {1 .. I_spec nx ny nz}" by simp
    with img have "I_spec a b c \<in> I3 ` set (below nx ny nz)" by simp
    then obtain k' where k': "k' \<in> set (below nx ny nz)" and e: "I3 k' = I_spec a b c"
      by (elim imageE) simp
    obtain a' b' c' where "k' = (a', b', c')" by (cases k')
    with e I_spec_inj [of a' b' c' a b c] have "k' = (a, b, c)" by simp
    with k' abc show "k \<in> set (below nx ny nz)" by simp
  qed
qed

lemma below_top: "set (below 0 0 D) = {(a, b, c). 1 \<le> a + b + c \<and> a + b + c \<le> D}"
  by (auto simp: below_set I_spec_le_top)

lemma below_degree: "(a, b, c) \<in> set (below nx ny nz) \<Longrightarrow> a + b + c \<le> nx + ny + nz"
  by (simp add: below_set I_spec_degree_le)

lemma slot_extend:
  assumes val: "\<And>a b c. I_spec a b c \<le> j \<Longrightarrow> V (I_spec a b c) = g a b c"
    and frame: "\<And>i. j < i \<Longrightarrow> V i = C i"
    and top: "I_spec nx ny nz = Suc j"
    and v: "v = g nx ny nz"
  shows "(\<forall>a b c. I_spec a b c \<le> Suc j \<longrightarrow> (V(I_spec nx ny nz := v)) (I_spec a b c) = g a b c)
       \<and> (\<forall>i. Suc j < i \<longrightarrow> (V(I_spec nx ny nz := v)) i = C i)"
proof (intro conjI allI impI)
  fix a b c assume le: "I_spec a b c \<le> Suc j"
  show "(V(I_spec nx ny nz := v)) (I_spec a b c) = g a b c"
  proof (cases "I_spec a b c = I_spec nx ny nz")
    case True
    from I_spec_inj [OF this] v show ?thesis by simp
  next
    case False
    with le top have "I_spec a b c \<le> j" by simp
    from val [OF this] False show ?thesis by simp
  qed
next
  fix i assume "Suc j < i"
  then show "(V(I_spec nx ny nz := v)) i = C i" using frame [of i] top by simp
qed

lemma monomial_z: "monomial d nx ny nz * pnth d 2 / real (Suc nz) = monomial d nx ny (Suc nz)"
  by (simp add: monomial_def mult_ac)

lemma monomial_y: "monomial d nx ny 0 * pnth d 1 / real (Suc ny) = monomial d nx (Suc ny) 0"
  by (simp add: monomial_def mult_ac)

lemma monomial_x: "monomial d nx 0 0 * pnth d 0 / real (Suc nx) = monomial d (Suc nx) 0 0"
  by (simp add: monomial_def mult_ac)

lemma monomial_0 [simp]: "monomial d 0 0 0 = 1"
  by (simp add: monomial_def)

lemma Terms_power_inv:
  "nx + ny + nz \<le> 1624 \<Longrightarrow>
     (\<forall>a b c. I_spec a b c \<le> I_spec nx ny nz \<longrightarrow>
         Terms_power nx ny nz C d (I_spec a b c) = C 0 * monomial d a b c)
     \<and> (\<forall>i. I_spec nx ny nz < i \<longrightarrow> Terms_power nx ny nz C d i = C i)"
proof (induction nx ny nz C d rule: Terms_power.induct)
  case (1 nx ny nz C d)
  let ?V = "Terms_power nx (Suc ny) nz C d"
  let ?j = "I_spec nx (Suc ny) nz"
  from 1 have IH: "(\<forall>a b c. I_spec a b c \<le> ?j \<longrightarrow> ?V (I_spec a b c) = C 0 * monomial d a b c)
     \<and> (\<forall>i. ?j < i \<longrightarrow> ?V i = C i)" by simp
  have low: "I_spec nx ny nz \<le> ?j" by (rule less_imp_le [OF I_spec_degree_lt]) simp
  have ex: "Index_I nx ny (Suc nz) = I_spec nx ny (Suc nz)" "Index_I nx ny nz = I_spec nx ny nz"
    using 1(2) by (simp_all add: Index_I_exact)
  have v: "?V (I_spec nx ny nz) * pnth d 2 / real (Suc nz) = C 0 * monomial d nx ny (Suc nz)"
    using IH low by (simp add: monomial_z [symmetric])
  have "Terms_power nx ny (Suc nz) C d
      = ?V(I_spec nx ny (Suc nz) := ?V (I_spec nx ny nz) * pnth d 2 / real (Suc nz))"
    by (simp add: Let_def ex)
  moreover note slot_extend [where V = ?V and j = ?j and g = "\<lambda>a b c. C 0 * monomial d a b c"
      and C = C and nx = nx and ny = ny and nz = "Suc nz", OF _ _ I_spec_step_z v]
  ultimately show ?case using IH by (simp add: I_spec_step_z)
next
  case (2 nx ny C d)
  let ?V = "Terms_power (Suc nx) 0 ny C d"
  let ?j = "I_spec (Suc nx) 0 ny"
  from 2 have IH: "(\<forall>a b c. I_spec a b c \<le> ?j \<longrightarrow> ?V (I_spec a b c) = C 0 * monomial d a b c)
     \<and> (\<forall>i. ?j < i \<longrightarrow> ?V i = C i)" by simp
  have low: "I_spec nx ny 0 \<le> ?j" by (rule less_imp_le [OF I_spec_degree_lt]) simp
  have ex: "Index_I nx (Suc ny) 0 = I_spec nx (Suc ny) 0" "Index_I nx ny 0 = I_spec nx ny 0"
    using 2(2) by (simp_all add: Index_I_exact)
  have v: "?V (I_spec nx ny 0) * pnth d 1 / real (Suc ny) = C 0 * monomial d nx (Suc ny) 0"
    using IH low by (simp add: monomial_y [symmetric])
  have "Terms_power nx (Suc ny) 0 C d
      = ?V(I_spec nx (Suc ny) 0 := ?V (I_spec nx ny 0) * pnth d 1 / real (Suc ny))"
    by (simp add: Let_def ex)
  moreover note slot_extend [where V = ?V and j = ?j and g = "\<lambda>a b c. C 0 * monomial d a b c"
      and C = C and nx = nx and ny = "Suc ny" and nz = 0, OF _ _ I_spec_step_y v]
  ultimately show ?case using IH by (simp add: I_spec_step_y)
next
  case (3 nx C d)
  let ?V = "Terms_power 0 0 nx C d"
  let ?j = "I_spec 0 0 nx"
  from 3 have IH: "(\<forall>a b c. I_spec a b c \<le> ?j \<longrightarrow> ?V (I_spec a b c) = C 0 * monomial d a b c)
     \<and> (\<forall>i. ?j < i \<longrightarrow> ?V i = C i)" by simp
  have low: "I_spec nx 0 0 \<le> ?j" by (simp add: I_spec_le_top)
  have ex: "Index_I (Suc nx) 0 0 = I_spec (Suc nx) 0 0" "Index_I nx 0 0 = I_spec nx 0 0"
    using 3(2) by (simp_all add: Index_I_exact)
  have v: "?V (I_spec nx 0 0) * pnth d 0 / real (Suc nx) = C 0 * monomial d (Suc nx) 0 0"
    using IH low by (simp add: monomial_x [symmetric])
  have "Terms_power (Suc nx) 0 0 C d
      = ?V(I_spec (Suc nx) 0 0 := ?V (I_spec nx 0 0) * pnth d 0 / real (Suc nx))"
    by (simp add: Let_def ex)
  moreover note slot_extend [where V = ?V and j = ?j and g = "\<lambda>a b c. C 0 * monomial d a b c"
      and C = C and nx = "Suc nx" and ny = 0 and nz = 0, OF _ _ I_spec_step_x v]
  ultimately show ?case using IH by (simp add: I_spec_step_x)
next
  case (4 C d)
  show ?case
  proof (intro conjI allI impI)
    fix a b c assume "I_spec a b c \<le> I_spec 0 0 0"
    then have "I_spec a b c = I_spec 0 0 0" by simp
    from I_spec_inj [OF this] show "Terms_power 0 0 0 C d (I_spec a b c) = C 0 * monomial d a b c"
      by simp
  qed simp
qed

lemma foldr_acc: "foldr (acc J t) ks V i = V i + sum_list (map t (filter (\<lambda>k. J k = i) ks))"
  by (induction ks arbitrary: i) (simp_all add: acc_def)




lemma sweep_miss:
  assumes "nx + ny + nz \<le> 1624" and "i = 0 \<or> I_spec nx ny nz < i"
  shows "foldr (acc J3 t) (below nx ny nz) V i = V i"
proof -
  have "filter (\<lambda>k. J3 k = i) (below nx ny nz) = []"
  proof (simp only: filter_empty_conv, intro ballI notI)
    fix k assume k: "k \<in> set (below nx ny nz)" and e: "J3 k = i"
    obtain a b c where abc: "k = (a, b, c)" by (cases k)
    from k abc have "a + b + c \<le> nx + ny + nz" by (simp add: below_degree)
    with assms(1) have "Index_I a b c = I_spec a b c" by (simp add: Index_I_exact)
    with e abc have i: "i = I_spec a b c" by simp
    from k abc have "(a, b, c) \<noteq> (0, 0, 0)" "I_spec a b c \<le> I_spec nx ny nz"
      by (simp_all add: below_set)
    moreover have "I_spec a b c \<noteq> 0"
    proof
      assume "I_spec a b c = 0"
      then have "I_spec a b c = I_spec 0 0 0" by simp
      from I_spec_inj [OF this] \<open>(a, b, c) \<noteq> (0, 0, 0)\<close> show False by simp
    qed
    ultimately show False using assms(2) i by auto
  qed
  then show ?thesis by (simp add: foldr_acc)
qed


lemma fold_each:
  "fold (\<lambda>i V. V(i := V i + g i)) [0..<N] V = (\<lambda>i. if i < N then V i + g i else V i)"
  by (induction N) (auto simp: fun_eq_iff)

lemma Upward_M2M_foldr:
  "Upward_M2M nx ny nz MI C MJ
     = foldr (acc J3 (\<lambda>(a, b, c). M2MSum a b c a b c C MJ)) (below nx ny nz) MI"
  by (induction nx ny nz MI C MJ rule: Upward_M2M.induct)
     (simp_all only: Upward_M2M.simps below.simps foldr.simps o_apply id_apply acc_def Let_def
        prod.case)




lemma MTERM_exact: "P \<le> 1624 \<Longrightarrow> MTERM P = tet P"
  unfolding MTERM_def by (rule unat_tet_word)

lemma LTERM_exact:
  assumes "P \<le> 1623"
  shows "LTERM P = tet (Suc P)"
proof -
  have "((of_nat P + 1) * (of_nat P + 2) * (of_nat P + 3) :: u32)
      = of_nat (Suc P) * (of_nat (Suc P) + 1) * (of_nat (Suc P) + 2)"
    by (simp add: algebra_simps)
  moreover have "Suc P \<le> 1624" using assms by simp
  ultimately show ?thesis
    unfolding LTERM_def using unat_tet_word [of "Suc P"] by simp
qed

lemma Index_I_zero: "Index_I 0 0 0 = 0"
  by (simp add: Index_I_exact)

lemma slot_below_tet:
  "a + b + c < P \<Longrightarrow> I_spec a b c < tet P"
proof -
  assume "a + b + c < P"
  then have "tet (Suc (a + b + c)) \<le> tet P" by (intro tet_mono) simp
  with I_spec_upper [of a b c] show ?thesis by simp
qed

lemma slot_cover:
  assumes "i < tet P"
  shows "\<exists>a b c. a + b + c < P \<and> i = I_spec a b c"
proof -
  from I_spec_surj obtain a b c where abc: "I_spec a b c = i" by blast
  have "a + b + c < P"
  proof (rule ccontr)
    assume "\<not> a + b + c < P"
    then have "tet P \<le> tet (a + b + c)" by (intro tet_mono) simp
    with I_spec_lower [of a b c] abc assms show False by simp
  qed
  with abc show ?thesis by blast
qed

lemma tableau_value:
  assumes "D \<le> 1624" "a + b + c \<le> D"
  shows "Terms_power 0 0 D C d (Index_I a b c) = C 0 * monomial d a b c"
proof -
  have "I_spec a b c \<le> I_spec 0 0 D" using assms(2) by (simp add: I_spec_le_top)
  moreover have "Index_I a b c = I_spec a b c" using assms by (simp add: Index_I_exact)
  ultimately show ?thesis using Terms_power_inv [of 0 0 D C d] assms(1) by simp
qed



lemma factorial_weight:
  assumes "fact nx * fact ny * fact nz < (2::nat) ^ 32"
  shows "Index_F nx ny nz = fact nx * fact ny * fact nz"
proof -
  have pos: "0 < (fact k :: nat)" for k by simp
  have le1: "fact nx \<le> (fact nx * fact ny * fact nz :: nat)"
    using pos [of ny] pos [of nz] by (simp add: Suc_le_eq)
  have le2: "fact ny \<le> (fact nx * fact ny * fact nz :: nat)"
    using pos [of nx] pos [of nz] by (simp add: Suc_le_eq)
  have le3: "fact nz \<le> (fact nx * fact ny * fact nz :: nat)"
    using pos [of nx] pos [of ny] by (simp add: Suc_le_eq)
  have small: "k < 2 ^ 32" if "fact k \<le> (fact nx * fact ny * fact nz :: nat)" for k :: nat
  proof -
    have "k \<le> fact k" by (rule fact_ge_self)
    with that assms show ?thesis by simp
  qed
  have u: "unat (of_nat k :: u32) = k" if "fact k \<le> (fact nx * fact ny * fact nz :: nat)" for k
    using small [OF that] by (rule unat_of_nat32)
  have "cart_value (of_nat nx) (of_nat ny) (of_nat nz)
      = (of_nat (fact nx * fact ny * fact nz) :: u32)"
    by (simp add: cart_value_def factorial_fact u [OF le1] u [OF le2] u [OF le3])
  then have "unat (cart_value (of_nat nx) (of_nat ny) (of_nat nz)) = fact nx * fact ny * fact nz"
    using assms by (simp only: unat_of_nat32)
  then show ?thesis by (simp add: Index_F_def)
qed



lemma degree_image:
  "I3 ` {(nx, ny, nz). nx + ny + nz = d} = {tet d ..< tet (Suc d)}"
proof (intro set_eqI iffI)
  fix i assume "i \<in> I3 ` {(nx, ny, nz). nx + ny + nz = d}"
  then obtain a b c where "a + b + c = d" "i = I_spec a b c" by auto
  then show "i \<in> {tet d ..< tet (Suc d)}"
    using I_spec_lower [of a b c] I_spec_upper [of a b c] by simp
next
  fix i assume i: "i \<in> {tet d ..< tet (Suc d)}"
  from I_spec_surj obtain a b c where abc: "I_spec a b c = i" by blast
  have "\<not> a + b + c < d"
  proof
    assume "a + b + c < d"
    from slot_below_tet [OF this] abc i show False by simp
  qed
  moreover have "\<not> d < a + b + c"
  proof
    assume "d < a + b + c"
    then have "tet (Suc d) \<le> tet (a + b + c)" by (intro tet_mono) simp
    with I_spec_lower [of a b c] abc i show False by simp
  qed
  ultimately have "a + b + c = d" by simp
  with abc show "i \<in> I3 ` {(nx, ny, nz). nx + ny + nz = d}" by (auto simp: image_iff)
qed

lemma upto_image:
  "I3 ` {(nx, ny, nz). nx + ny + nz \<le> P} = {0 ..< tet (Suc P)}"
proof (intro set_eqI iffI)
  fix i assume "i \<in> I3 ` {(nx, ny, nz). nx + ny + nz \<le> P}"
  then obtain a b c where "a + b + c \<le> P" "i = I_spec a b c" by auto
  then show "i \<in> {0 ..< tet (Suc P)}"
    using slot_below_tet [of a b c "Suc P"] by simp
next
  fix i assume "i \<in> {0 ..< tet (Suc P)}"
  then have "i < tet (Suc P)" by simp
  from slot_cover [OF this] obtain a b c where abc: "a + b + c < Suc P" "i = I_spec a b c" by blast
  then have "(a, b, c) \<in> {(nx, ny, nz). nx + ny + nz \<le> P}" "i = I3 (a, b, c)" by simp_all
  then show "i \<in> I3 ` {(nx, ny, nz). nx + ny + nz \<le> P}" by (rule image_eqI [rotated])
qed

lemma I3_inj: "inj_on I3 A"
proof (rule inj_onI)
  fix x y assume "I3 x = I3 y"
  moreover obtain a b c where x: "x = (a, b, c)" by (cases x)
  moreover obtain a' b' c' where y: "y = (a', b', c')" by (cases y)
  ultimately show "x = y" using I_spec_inj [of a b c a' b' c'] by simp
qed

text \<open>
  C6 (as amended). For every order \<open>P \<le> 1623\<close> the slot map
  \<open>(nx, ny, nz) \<mapsto> I(nx, ny, nz)\<close> restricted to \<open>|\<alpha>| \<le> P\<close> is a bijection onto
  \<open>{0, \<dots>, LTERM - 1}\<close> with \<open>LTERM = (P+1)(P+2)(P+3)/6\<close>, it agrees with the formula
  \<open>n(n+1)(n+2)/6 + m(m+1)/2 + nz\<close>, and the indices of degree \<open>d\<close> fill the range
  \<open>[d(d+1)(d+2)/6, (d+1)(d+2)(d+3)/6)\<close>; the weight \<^verbatim>\<open>Index::F\<close> is the positive integer
  \<open>nx! ny! nz!\<close> whenever that product is below \<open>2\<^sup>3\<^sup>2\<close>.
\<close>

theorem cart_index_bijection:
  assumes "P \<le> 1623"
  shows "bij_betw (\<lambda>(nx, ny, nz). Index_I nx ny nz) {(nx, ny, nz). nx + ny + nz \<le> P} {0 ..< LTERM P}
       \<and> LTERM P = (P + 1) * (P + 2) * (P + 3) div 6
       \<and> (\<forall>nx ny nz. nx + ny + nz \<le> P \<longrightarrow>
             Index_I nx ny nz = (nx + ny + nz) * (nx + ny + nz + 1) * (nx + ny + nz + 2) div 6
                                + (ny + nz) * (ny + nz + 1) div 2 + nz)
       \<and> (\<forall>d\<le>P. (\<lambda>(nx, ny, nz). Index_I nx ny nz) ` {(nx, ny, nz). nx + ny + nz = d}
                    = {d * (d + 1) * (d + 2) div 6 ..< (d + 1) * (d + 2) * (d + 3) div 6})
       \<and> (\<forall>nx ny nz. fact nx * fact ny * fact nz < (2::nat) ^ 32 \<longrightarrow>
             Index_F nx ny nz = fact nx * fact ny * fact nz \<and> 0 < Index_F nx ny nz)"
proof (intro conjI allI impI)
  have ex: "J3 k = I3 k" if "k \<in> {(nx, ny, nz). nx + ny + nz \<le> d}" and "d \<le> P" for k d
  proof -
    obtain a b c where abc: "k = (a, b, c)" by (cases k)
    with that assms have "a + b + c \<le> 1624" by simp
    then show ?thesis using abc by (simp add: Index_I_exact)
  qed
  have L: "LTERM P = tet (Suc P)" using assms by (rule LTERM_exact)
  have "bij_betw I3 {(nx, ny, nz). nx + ny + nz \<le> P} {0 ..< tet (Suc P)}"
    unfolding bij_betw_def using I3_inj upto_image by blast
  moreover have "bij_betw J3 {(nx, ny, nz). nx + ny + nz \<le> P} {0 ..< tet (Suc P)}
      \<longleftrightarrow> bij_betw I3 {(nx, ny, nz). nx + ny + nz \<le> P} {0 ..< tet (Suc P)}"
    by (rule bij_betw_cong) (rule ex [OF _ le_refl])
  ultimately show "bij_betw J3 {(nx, ny, nz). nx + ny + nz \<le> P} {0 ..< LTERM P}"
    using L by simp
  have "Suc P * (Suc P + 1) * (Suc P + 2) = (P + 1) * (P + 2) * (P + 3)"
    by (simp add: algebra_simps)
  then show "LTERM P = (P + 1) * (P + 2) * (P + 3) div 6"
    by (simp only: L tet_def)
  show "Index_I nx ny nz = (nx + ny + nz) * (nx + ny + nz + 1) * (nx + ny + nz + 2) div 6
                                + (ny + nz) * (ny + nz + 1) div 2 + nz"
    if "nx + ny + nz \<le> P" for nx ny nz
  proof -
    have "nx + ny + nz \<le> 1624" using that assms by simp
    then show ?thesis by (simp only: Index_I_exact I_spec_def tet_def tri_def)
  qed
  show "J3 ` {(nx, ny, nz). nx + ny + nz = d}
      = {d * (d + 1) * (d + 2) div 6 ..< (d + 1) * (d + 2) * (d + 3) div 6}" if "d \<le> P" for d
  proof -
    have "J3 ` {(nx, ny, nz). nx + ny + nz = d} = I3 ` {(nx, ny, nz). nx + ny + nz = d}"
      by (rule image_cong [OF refl]) (rule ex [OF _ that], auto)
    moreover have "Suc d * (Suc d + 1) * (Suc d + 2) = (d + 1) * (d + 2) * (d + 3)"
      by (simp add: algebra_simps)
    ultimately show ?thesis by (simp only: degree_image tet_def)
  qed
  show "Index_F nx ny nz = fact nx * fact ny * fact nz"
    if "fact nx * fact ny * fact nz < (2::nat) ^ 32" for nx ny nz
    using that by (rule factorial_weight)
  then show "0 < Index_F nx ny nz"
    if "fact nx * fact ny * fact nz < (2::nat) ^ 32" for nx ny nz
    using that by simp
qed

theorem cart_index_bijection_witness:
  "(1::nat) \<le> 1623
   \<and> bij_betw (\<lambda>(nx, ny, nz). Index_I nx ny nz) {(nx, ny, nz). nx + ny + nz \<le> 1} {0 ..< LTERM 1}
   \<and> LTERM 1 = 4
   \<and> (fact 2 * fact 1 * fact 0 < (2::nat) ^ 32 \<and> Index_F 2 1 0 = 2)"
proof -
  have h: "(1::nat) \<le> 1623" by simp
  have f: "fact 2 * fact 1 * fact 0 < (2::nat) ^ 32" by (simp add: fact_numeral)
  note t = cart_index_bijection [OF h]
  from t have a: "bij_betw (\<lambda>(nx, ny, nz). Index_I nx ny nz)
      {(nx, ny, nz). nx + ny + nz \<le> 1} {0 ..< LTERM 1}" by (rule conjunct1)
  from t have "LTERM 1 = (1 + 1) * (1 + 2) * (1 + 3) div 6" by blast
  then have b: "LTERM 1 = 4" by simp
  from t f have "Index_F 2 1 0 = fact 2 * fact 1 * fact 0" by blast
  then have c: "Index_F 2 1 0 = 2" by (simp add: fact_numeral)
  from h a b c f show ?thesis by blast
qed

text \<open>
  The weight of the multi-index \<open>(34, 0, 0)\<close> is \<open>0\<close>: \<open>34!\<close> is a multiple of
  \<open>2\<^sup>3\<^sup>2\<close>, and \<^verbatim>\<open>factorial\<close> multiplies in \<^verbatim>\<open>unsigned\<close>.
\<close>

theorem cart_value_wraps: "\<not> 0 < Index_F 34 0 0"
  by (simp add: Index_F_def cart_value_def factorial_34)

lemma MTERM_pos: "1 \<le> P \<Longrightarrow> P \<le> 1624 \<Longrightarrow> 0 < MTERM P"
proof -
  assume "1 \<le> P" "P \<le> 1624"
  then have "tet 1 \<le> tet P" "MTERM P = tet P" by (simp_all add: tet_mono MTERM_exact)
  then show ?thesis by (simp add: tet_def)
qed



lemma M2M_unfold:
  "M2M P Ms Mt tau =
     foldr (acc J3 (\<lambda>(a, b, c). M2MSum a b c a b c (Terms_power 0 0 (P - 1) (vzero(0 := 1)) tau) Ms))
       (below 0 0 (P - 1))
       (\<lambda>i. if i < MTERM P then Mt i + Terms_power 0 0 (P - 1) (vzero(0 := 1)) tau i * Ms 0 else Mt i)"
  by (simp only: M2M_def Let_def Upward_M2M_foldr fold_each)



lemma P2M_slot0:
  assumes "1 \<le> P" and "P \<le> 1624"
  shows "P2M P s q c M 0 = M 0 + q"
proof -
  have D: "P - 1 \<le> 1624" "(0::nat) + 0 + 0 \<le> P - 1" using assms by simp_all
  from tableau_value [OF D, of "vzero(0 := q)" "psub c s"]
  have "Terms_power 0 0 (P - 1) (vzero(0 := q)) (psub c s) 0 = q"
    by (simp add: Index_I_zero)
  then show ?thesis
    using MTERM_pos [OF assms] by (simp add: P2M_def Let_def vadd_def)
qed

lemma M2M_slot0:
  assumes "1 \<le> P" and "P \<le> 1624"
  shows "M2M P Ms Mt tau 0 = Mt 0 + Ms 0"
proof -
  have D: "P - 1 \<le> 1624" "(0::nat) + 0 + 0 \<le> P - 1" "0 + 0 + (P - 1) \<le> 1624"
    using assms by simp_all
  from tableau_value [OF D(1,2), of "vzero(0 := 1)" tau]
  have c0: "Terms_power 0 0 (P - 1) (vzero(0 := 1)) tau 0 = 1"
    by (simp add: Index_I_zero)
  have "M2M P Ms Mt tau 0
      = (if 0 < MTERM P then Mt 0 + Terms_power 0 0 (P - 1) (vzero(0 := 1)) tau 0 * Ms 0 else Mt 0)"
    unfolding M2M_unfold by (rule sweep_miss [OF D(3)]) simp
  then show ?thesis
    using MTERM_pos [OF assms] c0 by simp
qed

lemma fold_P2M_slot0:
  assumes "1 \<le> P" and "P \<le> 1624"
  shows "fold (\<lambda>(s, q) M. P2M P s q c M) bodies M 0 = M 0 + sum_list (map snd bodies)"
proof (induction bodies arbitrary: M)
  case Nil
  show ?case by simp
next
  case (Cons b bodies)
  obtain s q where b: "b = (s, q)" by (cases b)
  show ?case by (simp add: b Cons.IH P2M_slot0 [OF assms])
qed

lemma fold_M2M_slot0:
  assumes "1 \<le> P" and "P \<le> 1624"
  shows "fold (\<lambda>child M. M2M P (f child) M (g child)) children M 0
       = M 0 + sum_list (map (\<lambda>child. f child 0) children)"
proof (induction children arbitrary: M)
  case Nil
  show ?case by simp
next
  case (Cons x xs)
  show ?case by (simp add: Cons.IH M2M_slot0 [OF assms])
qed

lemma sum_list_concat_map:
  "sum_list (concat (map f xs)) = (sum_list (map (\<lambda>x. sum_list (f x)) xs) :: real)"
  by (induction xs) simp_all

lemma upward_slot0:
  assumes "1 \<le> P" and "P \<le> 1624"
  shows "upward P t 0 = sum_list (charges t)"
  using assms
proof (induction P t rule: upward.induct)
  case (1 P c bodies)
  then show ?case by (simp add: fold_P2M_slot0 vzero_def)
next
  case (2 P c children)
  have "map (\<lambda>child. upward P child 0) children = map (\<lambda>child. sum_list (charges child)) children"
    by (rule map_cong [OF refl]) (rule 2(1) [OF _ 2(2,3)])
  then have eq: "sum_list (map (\<lambda>child. upward P child 0) children)
      = sum_list (map (\<lambda>child. sum_list (charges child)) children)"
    by (rule arg_cong)
  have "upward P (Box c children) 0
      = vzero 0 + sum_list (map (\<lambda>child. upward P child 0) children)"
    by (simp add: fold_M2M_slot0 [OF 2(2,3)])
  also have "\<dots> = sum_list (map (\<lambda>child. sum_list (charges child)) children)"
    unfolding eq by (simp add: vzero_def)
  also have "\<dots> = sum_list (charges (Box c children))"
    by (simp add: sum_list_concat_map)
  finally show ?case .
qed


lemma Downward_L2P_foldr:
  "Downward_L2P P nx ny nz B C L
     = foldr (acc J3 (\<lambda>(a, b, c). LocalSum a b c 0 0 (P - a - b - c) C L)) (below nx ny nz) B"
  by (induction P nx ny nz B C L rule: Downward_L2P.induct)
     (simp_all only: Downward_L2P.simps below.simps foldr.simps o_apply id_apply acc_def Let_def
        prod.case diff_zero)


lemma Downward_M2P_foldr:
  "Downward_M2P P nx ny nz B C M
     = foldr (acc J3 (\<lambda>(a, b, c). M2LSum a b c 0 0 (P - a - b - c) C M)) (below nx ny nz) B"
  by (induction P nx ny nz B C M rule: Downward_M2P.induct)
     (simp_all only: Downward_M2P.simps below.simps foldr.simps o_apply id_apply acc_def Let_def
        prod.case diff_zero)




lemma shell_finite: "finite {(a, b, c). 1 \<le> a + b + c \<and> a + b + c \<le> (K::nat)}"
  using finite_set [of "below 0 0 K"] by (simp only: below_top)





lemma slot_nonzero:
  assumes "(a, b, c) \<noteq> (0, 0, 0)"
  shows "I_spec a b c \<noteq> 0"
proof
  assume "I_spec a b c = 0"
  then have "I_spec a b c = I_spec 0 0 0" by simp
  from I_spec_inj [OF this] assms show False by simp
qed





























lemma valid_cmp: "valid \<alpha> \<longleftrightarrow> 0 \<le> cmp \<alpha> X \<and> 0 \<le> cmp \<alpha> Y \<and> 0 \<le> cmp \<alpha> Z"
  by (cases \<alpha>) simp





































lemma rne_of_int [simp]: "rne (of_int m) = m"
  by (simp add: rne_def)

lemma rne_numeral [simp]: "rne (numeral w) = numeral w" "rne 0 = 0" "rne 1 = 1"
  using rne_of_int [of "numeral w"] rne_of_int [of 0] rne_of_int [of 1] by simp_all


lemma ranged_zero [simp]: "ranged 0 = Fin 0"
  by (simp add: ranged_def dbl_max_def)

lemma round64_zero [simp]: "round64 0 = Fin 0"
  by (simp add: round64_def rne_def)

text \<open>Every \<open>m 2\<^sup>k\<close> units of \<open>2\<^sup>-\<^sup>1\<^sup>0\<^sup>7\<^sup>4\<close> with \<open>|m| < 2\<^sup>5\<^sup>3\<close> and \<open>k \<le> 2045\<close> is a double.\<close>

lemma round64_exact:
  fixes m :: int and k :: nat
  assumes m: "\<bar>m\<bar> < 2 ^ 53" and k: "k \<le> 2045"
  shows "round64 (of_int m * 2 ^ k / 2 ^ 1074) = Fin (of_int m * 2 ^ k / 2 ^ 1074)"
proof (cases "m = 0")
  case True
  then show ?thesis by simp
next
  case False
  let ?x = "of_int m * 2 ^ k / 2 ^ 1074 :: real"
  have X: "\<bar>?x\<bar> * 2 ^ 1074 = of_int (\<bar>m\<bar> * 2 ^ k)" by (simp add: abs_mult)
  have fl: "\<lfloor>\<bar>?x\<bar> * 2 ^ 1074\<rfloor> = \<bar>m\<bar> * 2 ^ k" unfolding X by (rule floor_of_int)
  have pos: "0 < \<bar>m\<bar>" using False by simp
  have bl: "bitlen (\<bar>m\<bar> * 2 ^ k) = bitlen \<bar>m\<bar> + int k" using pos by (rule bitlen_pow2)
  have b53: "bitlen \<bar>m\<bar> \<le> 53" using m by (simp add: bitlen_le_iff_power)
  define u where "u = nat (bitlen \<bar>m\<bar> + int k - 53)"
  have uk: "u \<le> k" using b53 by (simp add: u_def)
  define q :: real where "q = 2 ^ u / 2 ^ 1074"
  have qpos: "0 < q" by (simp add: q_def)
  have "(2::real) ^ k = 2 ^ (k - u) * 2 ^ u"
    using uk by (simp add: power_add [symmetric])
  then have xq: "?x = of_int (m * 2 ^ (k - u)) * q" by (simp add: q_def)
  have "?x / q = of_int (m * 2 ^ (k - u))" using qpos by (subst xq) simp
  then have r: "of_int (rne (?x / q)) * q = ?x" by (simp only: rne_of_int xq [symmetric])
  have le: "\<bar>?x\<bar> \<le> dbl_max"
  proof -
    have "\<bar>m\<bar> \<le> 2 ^ 53 - 1" using m by simp
    then have "real_of_int \<bar>m\<bar> \<le> real_of_int (2 ^ 53 - 1)" by (simp only: of_int_le_iff)
    then have a: "real_of_int \<bar>m\<bar> \<le> 2 ^ 53 - 1" by simp
    have "(2::real) ^ k \<le> 2 ^ 2045" using k by (intro power_increasing) simp_all
    also have "(2::real) ^ 2045 = 2 ^ 971 * 2 ^ 1074" by (simp add: power_add [symmetric])
    finally have b: "(2::real) ^ k / 2 ^ 1074 \<le> 2 ^ 971" by (simp add: field_simps)
    have "real_of_int \<bar>m\<bar> * (2 ^ k / 2 ^ 1074) \<le> (2 ^ 53 - 1) * 2 ^ 971"
      using a b by (intro mult_mono) simp_all
    then show ?thesis by (simp add: abs_mult dbl_max_def)
  qed
  show ?thesis
    unfolding round64_def Let_def fl bl u_def [symmetric] q_def [symmetric] r
    using le by (simp add: ranged_def)
qed

lemma round64_int:
  assumes "\<bar>m\<bar> < 2 ^ 53"
  shows "round64 (of_int m) = Fin (of_int m)"
  using round64_exact [OF assms, of 1074] by simp

lemma round64_binade:
  assumes lo: "2 ^ (52 + u) \<le> \<bar>x\<bar> * 2 ^ 1074" and hi: "\<bar>x\<bar> * 2 ^ 1074 < 2 ^ (53 + u)"
  shows "round64 x = ranged (of_int (rne (x * 2 ^ 1074 / 2 ^ u)) * 2 ^ u / 2 ^ 1074)"
proof -
  let ?n = "\<lfloor>\<bar>x\<bar> * 2 ^ 1074\<rfloor>"
  have "real_of_int (2 ^ (52 + u)) \<le> \<bar>x\<bar> * 2 ^ 1074" using lo by simp
  then have a: "2 ^ (52 + u) \<le> ?n" by (simp only: le_floor_iff)
  have "\<bar>x\<bar> * 2 ^ 1074 < real_of_int (2 ^ (53 + u))" using hi by simp
  then have b: "?n < 2 ^ (53 + u)" by (simp only: floor_less_iff)
  have "bitlen ?n \<le> int (53 + u) \<longleftrightarrow> 0 \<le> int (53 + u) \<and> ?n < 2 ^ nat (int (53 + u))"
    by (rule bitlen_le_iff_power)
  then have "bitlen ?n \<le> int (53 + u)" using b by (simp only: nat_int of_nat_0_le_iff simp_thms)
  moreover have "int (53 + u) \<le> bitlen ?n \<longleftrightarrow> int (53 + u) \<le> 0 \<or> 2 ^ (nat (int (53 + u)) - 1) \<le> ?n"
    by (rule bitlen_ge_iff_power)
  then have "int (53 + u) \<le> bitlen ?n" using a by (simp only: nat_int) simp
  ultimately have "bitlen ?n = int (53 + u)" by simp
  then have u: "nat (bitlen ?n - 53) = u" by simp
  have q: "x / (2 ^ u / 2 ^ 1074) = x * 2 ^ 1074 / 2 ^ u" by simp
  show ?thesis unfolding round64_def Let_def u q by simp
qed

lemma round64_subnormal:
  assumes "\<bar>x\<bar> * 2 ^ 1074 < 2 ^ 53"
  shows "round64 x = ranged (of_int (rne (x * 2 ^ 1074)) / 2 ^ 1074)"
proof -
  let ?n = "\<lfloor>\<bar>x\<bar> * 2 ^ 1074\<rfloor>"
  have "\<bar>x\<bar> * 2 ^ 1074 < real_of_int (2 ^ 53)" using assms by simp
  then have "?n < 2 ^ 53" by (simp only: floor_less_iff)
  then have "bitlen ?n \<le> 53" by (simp add: bitlen_le_iff_power)
  then have "nat (bitlen ?n - 53) = 0" by simp
  then show ?thesis by (simp add: round64_def Let_def)
qed

text \<open>Absorption: \<open>2\<^sup>5\<^sup>3 + 1\<close> lies halfway between two doubles and rounds to the even one.\<close>

lemma round64_absorb: "round64 (2 ^ 53 + 1) = Fin (2 ^ 53)"
proof -
  have "round64 (2 ^ 53 + 1) = ranged (of_int (rne ((2 ^ 53 + 1) * 2 ^ 1074 / 2 ^ 1075)) * 2 ^ 1075 / 2 ^ 1074)"
    by (rule round64_binade) simp_all
  also have "((2 ^ 53 + 1) * 2 ^ 1074 / 2 ^ 1075 :: real) = 2 ^ 52 + 1 / 2" by simp
  also have "rne (2 ^ 52 + 1 / 2) = 2 ^ 52"
  proof -
    have "\<lfloor>2 ^ 52 + 1 / 2 :: real\<rfloor> = 2 ^ 52" by (rule floor_unique) simp_all
    then show ?thesis by (simp add: rne_def Let_def)
  qed
  also have "ranged (of_int (2 ^ 52) * 2 ^ 1075 / 2 ^ 1074) = Fin (2 ^ 53)"
    by (simp add: ranged_def dbl_max_def)
  finally show ?thesis .
qed

text \<open>Overflow: \<open>2\<^sup>1\<^sup>0\<^sup>4\<^sup>0\<close> and \<open>2\<^sup>1\<^sup>2\<^sup>0\<^sup>0\<close> are beyond the largest double.\<close>

lemma round64_overflow_1040: "round64 (2 ^ 1040) = PInf"
proof -
  have "round64 (2 ^ 1040)
      = ranged (of_int (rne (2 ^ 1040 * 2 ^ 1074 / 2 ^ 2062)) * 2 ^ 2062 / 2 ^ 1074)"
    by (rule round64_binade) simp_all
  also have "(2 ^ 1040 * 2 ^ 1074 / 2 ^ 2062 :: real) = of_int (2 ^ 52)" by simp
  also have "real_of_int (rne (of_int (2 ^ 52))) * 2 ^ 2062 / 2 ^ 1074 = 2 ^ 1040" by simp
  also have "ranged (2 ^ 1040) = PInf" by (simp add: ranged_def dbl_max_def)
  finally show ?thesis .
qed



lemma round64_pow2_53: "round64 (2 ^ 53) = Fin (2 ^ 53)" "round64 (- (2 ^ 53)) = Fin (- (2 ^ 53))"
  using round64_exact [of 1 1127] round64_exact [of "- 1" 1127] by simp_all

lemma round64_inv_pow2_520: "round64 (1 / 2 ^ 520) = Fin (1 / 2 ^ 520)"
  using round64_exact [of 1 554] by simp

lemma round64_inv_pow2_1040: "round64 (1 / 2 ^ 1040) = Fin (1 / 2 ^ 1040)"
  using round64_exact [of 1 34] by simp

lemma round64_numeral [simp]:
  "numeral w < (2 ^ 53 :: int) \<Longrightarrow> round64 (numeral w) = Fin (numeral w)"
  "numeral w < (2 ^ 53 :: int) \<Longrightarrow> round64 (- numeral w) = Fin (- numeral w)"
  using round64_int [of "numeral w"] round64_int [of "- numeral w"] by simp_all

lemma round64_one [simp]: "round64 1 = Fin 1" "round64 (- 1) = Fin (- 1)"
  using round64_int [of 1] round64_int [of "- 1"] by simp_all



lemma dadd_fin: "is_fin (dadd rd a b) \<Longrightarrow> is_fin a \<and> is_fin b"
  by (cases a; cases b) simp_all














lemma term_counts:
  "MTERM 1 = 1" "LTERM 1 = 4" "MTERM 2 = 4" "LTERM 2 = 10" "MTERM 3 = 10"
  by (simp_all add: MTERM_exact LTERM_exact tet_def)

lemma term_counts_Suc: "MTERM (Suc 0) = 1" "LTERM (Suc 0) = 4"
  using term_counts by simp_all

section \<open>A zero seed gives a zero coefficient vector\<close>

lemma dmul_zero_right: "rd 0 = Fin 0 \<Longrightarrow> is_fin a \<Longrightarrow> dmul rd a (Fin 0) = Fin 0"
  by (cases a) simp_all

lemma dmul_zero_left: "rd 0 = Fin 0 \<Longrightarrow> is_fin b \<Longrightarrow> dmul rd (Fin 0) b = Fin 0"
  by (cases b) simp_all

lemma dadd_zero_zero: "rd 0 = Fin 0 \<Longrightarrow> dadd rd (Fin 0) (Fin 0) = Fin 0"
  by simp

lemma ddiv_zero: "rd 0 = Fin 0 \<Longrightarrow> c \<noteq> 0 \<Longrightarrow> ddiv rd (Fin 0) (Fin c) = Fin 0"
  by simp

lemma dadd_zero_right: "is_dbl rd a \<Longrightarrow> dadd rd a (Fin 0) = a"
  by (cases a) simp_all

lemma dzero_apply [simp]: "dzero i = Fin 0"
  by (simp add: dzero_def)

lemma dzero_upd [simp]: "dzero(i := Fin 0) = dzero"
  by (rule ext) simp


lemma DerivativeTerm_d_zero:
  assumes "rd 0 = Fin 0" and "scalable rd P dst" and "n \<le> P"
  shows "DerivativeTerm_d rd n kx ky kz d dzero dst = Fin 0"
  using assms by (simp add: DerivativeTerm_d_def scalable_def dmul_zero_right)


lemma reached_top [simp]: "reached kx ky 5" "reached kx ky 4" "reached kx ky 2" "reached kx ky 0"
  by (simp_all add: reached_def)

lemma reached_cases:
  assumes "reached kx ky flag"
  obtains "flag = 0" | kx1 where "flag = 1" "kx = Suc kx1" | "flag = 2"
    | ky1 where "flag = 3" "ky = Suc ky1" | "flag = 4" | "flag = 5"
proof -
  from assms have "flag \<le> 5" by (simp add: reached_def)
  then consider "flag = 0" | "flag = 1" | "flag = 2" | "flag = 3" | "flag = 4" | "flag = 5"
    by linarith
  then show thesis
  proof cases
    case 2
    with assms have "1 \<le> kx" by (simp add: reached_def)
    then obtain kx1 where "kx = Suc kx1" by (cases kx) simp_all
    with 2 that(2) show ?thesis by blast
  next
    case 4
    with assms have "1 \<le> ky" by (simp add: reached_def)
    then obtain ky1 where "ky = Suc ky1" by (cases ky) simp_all
    with 4 that(4) show ?thesis by blast
  qed (use that in blast)+
qed

lemma DerivativeSum_d_zero:
  assumes "rd 0 = Fin 0" and "scalable rd P dst" and "nx + ny + nz \<le> P"
    and "reached kx ky flag"
  shows "DerivativeSum_d rd nx ny nz kx ky kz flag dzero dst = Fin 0"
  using assms
proof (induction rd nx ny nz kx ky kz flag "dzero" dst rule: DerivativeSum_d.induct)
  case (1 rd nx ny nz kx ky kz flag dst)
  note t = DerivativeTerm_d_zero [OF "1.prems"(1,2,3)]
  note p = "1.prems"(1,2,3)
  from "1.prems"(4) show ?case
  proof (cases rule: reached_cases)
    case 1
    then show ?thesis by (subst DerivativeSum_d.simps) simp
  next
    case (2 kx1)
    have "DerivativeSum_d rd nx ny nz kx1 ny nz (1 - of_bool (kx < nx \<or> kx = 1)) dzero dst = Fin 0"
      using 2 by (intro "1.hyps"(1) p) (auto simp: reached_def)
    then show ?thesis
      using 2 by (subst DerivativeSum_d.simps) (simp add: t p(1))
  next
    case 3
    have "DerivativeSum_d rd nx ny nz nx ny nz (1 - of_bool (nx = 0)) dzero dst = Fin 0"
      using 3 by (intro "1.hyps"(2) p) (auto simp: reached_def)
    then show ?thesis
      using 3 by (subst DerivativeSum_d.simps) simp
  next
    case (4 ky1)
    have "DerivativeSum_d rd nx ny nz nx ky1 nz (3 - of_bool (ky < ny \<or> ky = 1)) dzero dst = Fin 0"
      using 4 by (intro "1.hyps"(3) p) (auto simp: reached_def)
    then show ?thesis
      using 4 by (subst DerivativeSum_d.simps) (simp add: t p(1))
  next
    case 5
    have "DerivativeSum_d rd nx ny nz nx ny nz (3 - of_bool (ny = 0)) dzero dst = Fin 0"
      using 5 by (intro "1.hyps"(4) p) (auto simp: reached_def)
    then show ?thesis
      using 5 by (subst DerivativeSum_d.simps) simp
  next
    case 6
    show ?thesis
    proof (cases kz)
      case 0
      have "DerivativeSum_d rd nx ny nz nx ny 0 4 dzero dst = Fin 0"
        using 6 0 by (intro "1.hyps"(5) p) simp_all
      then show ?thesis
        using 6 0 by (subst DerivativeSum_d.simps) simp
    next
      case (Suc kz1)
      have "DerivativeSum_d rd nx ny nz nx ny kz1 (5 - of_bool (kz < nz \<or> kz = 1)) dzero dst = Fin 0"
        using 6 Suc by (intro "1.hyps"(6) p) (auto simp: reached_def)
      then show ?thesis
        using 6 Suc by (subst DerivativeSum_d.simps) (simp add: t p(1))
    qed
  qed
qed

lemma Terms_derivative_d_zero:
  assumes "rd 0 = Fin 0" and "scalable rd P dst" and "is_fin invR2" and "nx + ny + nz \<le> P"
  shows "Terms_derivative_d rd nx ny nz dzero dst invR2 = dzero"
  using assms
proof (induction rd nx ny nz "dzero" dst invR2 rule: Terms_derivative_d.induct)
  case (1 rd nx ny nz dst invR2)
  then show ?case by (simp add: DerivativeSum_d_zero [where P = P] dmul_zero_left Let_def)
next
  case (2 rd nx ny dst invR2)
  then show ?case by (simp add: DerivativeSum_d_zero [where P = P] dmul_zero_left Let_def)
next
  case (3 rd nx dst invR2)
  then show ?case by (simp add: DerivativeSum_d_zero [where P = P] dmul_zero_left Let_def)
next
  case (4 rd dst invR2)
  show ?case by simp
qed

lemma Terms_scale_d_zero:
  assumes "rd 0 = Fin 0"
  shows "Terms_scale_d rd nx ny nz dzero = dzero"
  using assms
  by (induction rd nx ny nz "dzero" rule: Terms_scale_d.induct) simp_all

lemma getCoef_d_zero:
  assumes "rd 0 = Fin 0" and "scalable rd P dst" and "is_fin invR2"
  shows "getCoef_d rd P dzero dst invR2 (Fin 0) = dzero"
  using assms
  by (simp add: getCoef_d_def Terms_derivative_d_zero [where P = P] Terms_scale_d_zero)

lemma M2LSum_d_zero:
  assumes "rd 0 = Fin 0" and "\<forall>i. is_fin (M i)"
  shows "M2LSum_d rd nx ny nz kx ky kz dzero M = Fin 0"
  using assms
  by (induction rd nx ny nz kx ky kz "dzero" M rule: M2LSum_d.induct)
     (simp_all add: dmul_zero_right)

lemma Downward_M2L_d_zero:
  assumes "rd 0 = Fin 0" and "\<forall>i. is_fin (M i)" and "\<forall>i. is_dbl rd (L i)"
  shows "Downward_M2L_d rd P nx ny nz L dzero M = L"
  using assms
  by (induction rd P nx ny nz L "dzero" M rule: Downward_M2L_d.induct)
     (simp_all add: M2LSum_d_zero dadd_zero_right)

lemma fold_slot0_zero:
  assumes "rd 0 = Fin 0" and "\<forall>i. is_fin (M i)" and "\<forall>i. is_dbl rd (L i)"
  shows "fold (\<lambda>i L. L(0 := dadd rd (L 0) (dmul rd (M i) (dzero i)))) ks L = L"
  using assms by (induction ks) (simp_all add: dmul_zero_right dadd_zero_right)

lemma sumM2L_d_zero:
  assumes "rd 0 = Fin 0" and "\<forall>i. is_fin (M i)" and "\<forall>i. is_dbl rd (L i)"
  shows "sumM2L_d rd P L dzero M = L"
proof -
  have v: "vadd_d rd (LTERM P) L dzero = L"
    using assms(3) by (auto simp: vadd_d_def dadd_zero_right)
  show ?thesis
    unfolding sumM2L_d_def Let_def v
    by (simp only: fold_slot0_zero [OF assms] Downward_M2L_d_zero [OF assms])
qed

lemma dsqrt_fin: "is_fin (dsqrt rd a) \<Longrightarrow> is_fin a"
  by (cases a) simp_all

lemma M2L_d_zero:
  assumes rd: "rd 0 = Fin 0" and M0: "M 0 = Fin 0" and M: "\<forall>i. is_fin (M i)"
    and L: "\<forall>i. is_dbl rd (L i)"
    and r: "is_fin (dsqrt rd (ddiv rd (Fin 1) (normSq_d rd tau)))"
    and s: "scalable rd P tau"
  shows "M2L_d rd P M L tau = L"
proof -
  let ?invR2 = "ddiv rd (Fin 1) (normSq_d rd tau)"
  have i2: "is_fin ?invR2" using r by (rule dsqrt_fin)
  have "dmul rd (M 0) (dsqrt rd ?invR2) = Fin 0"
    unfolding M0 using rd r by (rule dmul_zero_left)
  then show ?thesis
    unfolding M2L_d_def Let_def
    by (simp only: getCoef_d_zero [OF rd s i2] sumM2L_d_zero [OF rd M L])
qed

lemma getCoef_d_slot0_1: "getCoef_d rd (Suc 0) C d r invR 0 = invR"
  by (simp add: getCoef_d_def Let_def slot_values_Suc)

lemma sumM2L_d_slot0_1: "sumM2L_d rd (Suc 0) L C M 0 = dadd rd (L 0) (C 0)"
  by (simp add: sumM2L_d_def Let_def vadd_d_def term_counts_Suc)

text \<open>
  C10 (as amended). If \<open>M[0] = 0\<close> and every slot of \<open>M\<close> is finite, then \<^verbatim>\<open>M2L\<close> in double
  precision leaves \<open>L\<close> exactly unchanged for every translation \<open>\<tau>\<close> for which the double
  \<open>sqrt(1 / |\<tau>|\<^sup>2)\<close> and the products \<open>(1 - 2 n) \<tau>\<^sub>k\<close>, \<open>n \<le> P\<close>, are finite: the recursion is
  seeded with \<open>C[0] = M[0] sqrt(invR2) = 0\<close>, the whole coefficient vector is zero, and both
  \<open>L += C\<close> and every product \<open>M[i] C[j]\<close> vanish.
\<close>

theorem M2L_zero_charge:
  assumes "M 0 = Fin 0" and "\<forall>i. is_fin (M i)" and "\<forall>i. is_dbl round64 (L i)"
    and "is_fin (dsqrt round64 (ddiv round64 (Fin 1) (normSq_d round64 tau)))"
    and "scalable round64 P tau"
  shows "getCoef_d round64 P dzero tau (ddiv round64 (Fin 1) (normSq_d round64 tau))
           (dmul round64 (M 0) (dsqrt round64 (ddiv round64 (Fin 1) (normSq_d round64 tau))))
         = dzero
       \<and> M2L_d round64 P M L tau = L"
proof
  have i2: "is_fin (ddiv round64 (Fin 1) (normSq_d round64 tau))"
    using assms(4) by (rule dsqrt_fin)
  have "dmul round64 (M 0) (dsqrt round64 (ddiv round64 (Fin 1) (normSq_d round64 tau))) = Fin 0"
    unfolding assms(1) using round64_zero assms(4) by (rule dmul_zero_left)
  then show "getCoef_d round64 P dzero tau (ddiv round64 (Fin 1) (normSq_d round64 tau))
           (dmul round64 (M 0) (dsqrt round64 (ddiv round64 (Fin 1) (normSq_d round64 tau))))
         = dzero"
    by (simp only: getCoef_d_zero [OF round64_zero assms(5) i2])
  show "M2L_d round64 P M L tau = L"
    using round64_zero assms by (rule M2L_d_zero)
qed

theorem M2L_zero_charge_witness:
  "(dzero(1 := Fin 5, 2 := Fin 7)) 0 = Fin 0
   \<and> (\<forall>i. is_fin ((dzero(1 := Fin 5, 2 := Fin 7)) i))
   \<and> (\<forall>i. is_dbl round64 ((dzero(0 := Fin 3, 4 := Fin 2)) i))
   \<and> is_fin (dsqrt round64 (ddiv round64 (Fin 1) (normSq_d round64 (Fin 2, Fin 0, Fin 0))))
   \<and> scalable round64 2 (Fin 2, Fin 0, Fin 0)
   \<and> M2L_d round64 2 (dzero(1 := Fin 5, 2 := Fin 7)) (dzero(0 := Fin 3, 4 := Fin 2))
        (Fin 2, Fin 0, Fin 0) = dzero(0 := Fin 3, 4 := Fin 2)"
proof -
  have h1: "(dzero(1 := Fin 5, 2 := Fin 7)) 0 = Fin 0" by simp
  have h2: "\<forall>i. is_fin ((dzero(1 := Fin 5, 2 := Fin 7)) i)" by simp
  have h3: "\<forall>i. is_dbl round64 ((dzero(0 := Fin 3, 4 := Fin 2)) i)" by simp
  have q: "round64 (1 / 4) = Fin (1 / 4)" using round64_exact [of 1 1072] by simp
  have r: "round64 (1 / 2) = Fin (1 / 2)" using round64_exact [of 1 1073] by simp
  have s: "sqrt (1 / 4) = 1 / 2" by (rule real_sqrt_unique) (simp_all add: power2_eq_square)
  have h4: "is_fin (dsqrt round64 (ddiv round64 (Fin 1) (normSq_d round64 (Fin 2, Fin 0, Fin 0))))"
    by (simp add: q r s)
  have h5: "scalable round64 2 (Fin 2, Fin 0, Fin 0)"
    unfolding scalable_def
  proof (intro allI impI)
    fix n k :: nat
    assume "n \<le> 2"
    then have "\<bar>(1 - 2 * int n) * 2\<bar> < 2 ^ 53" by simp
    from round64_int [OF this]
    have "round64 (real_of_int (1 - 2 * int n) * 2) = Fin (real_of_int (1 - 2 * int n) * 2)"
      by simp
    then show "is_fin (dmul round64 (Fin (real_of_int (1 - 2 * int n)))
                         (pnth_d (Fin 2, Fin 0, Fin 0) k))"
      by simp
  qed
  from M2L_zero_charge [OF h1 h2 h3 h4 h5] h1 h2 h3 h4 h5 show ?thesis by blast
qed

text \<open>
  The claim as stated fails for the nonzero translation \<open>\<tau> = (2\<^sup>-\<^sup>5\<^sup>2\<^sup>0, 0, 0)\<close>, at order 1
  with \<open>M = 0\<close> and \<open>L = 0\<close>: \<open>|\<tau>|\<^sup>2 = 2\<^sup>-\<^sup>1\<^sup>0\<^sup>4\<^sup>0\<close>, \<open>1 / |\<tau>|\<^sup>2\<close> overflows to infinity,
  \<open>M[0] sqrt(invR2)\<close> is \<open>0 \<times> \<infinity>\<close>, a NaN, and \<open>L[0]\<close> becomes a NaN.
\<close>

theorem M2L_zero_charge_counterexample:
  "(1 / 2 ^ 520 :: real) \<noteq> 0 \<and> dzero 0 = Fin 0
   \<and> M2L_d round64 1 dzero dzero (Fin (1 / 2 ^ 520), Fin 0, Fin 0) 0 = NaN"
proof -
  have sq: "(1 / 2 ^ 520 :: real) * (1 / 2 ^ 520) = 1 / 2 ^ 1040" by simp
  have inv: "(1 :: real) / (1 / 2 ^ 1040) = 2 ^ 1040" by simp
  have "dmul round64 (Fin (1 / 2 ^ 520)) (Fin (1 / 2 ^ 520)) = Fin (1 / 2 ^ 1040)"
    using round64_inv_pow2_1040 by (simp only: dmul.simps sq)
  then have n: "normSq_d round64 (Fin (1 / 2 ^ 520), Fin 0, Fin 0) = Fin (1 / 2 ^ 1040)"
    using round64_inv_pow2_1040 by simp
  have "ddiv round64 (Fin 1) (Fin (1 / 2 ^ 1040)) = round64 (1 / (1 / 2 ^ 1040))"
    by (simp only: ddiv.simps) simp
  then have d: "ddiv round64 (Fin 1) (Fin (1 / 2 ^ 1040)) = PInf"
    using round64_overflow_1040 by (simp only: inv)
  have "M2L_d round64 1 dzero dzero (Fin (1 / 2 ^ 520), Fin 0, Fin 0) 0 = NaN"
    unfolding M2L_d_def Let_def n d
    by (simp add: sumM2L_d_slot0_1 getCoef_d_slot0_1)
  then show ?thesis by simp
qed

lemma walk_induct [case_names origin x y z]:
  assumes "P 0 0 0"
    and "\<And>nx. P 0 0 nx \<Longrightarrow> P (Suc nx) 0 0"
    and "\<And>nx ny. P (Suc nx) 0 ny \<Longrightarrow> P nx (Suc ny) 0"
    and "\<And>nx ny nz. P nx (Suc ny) nz \<Longrightarrow> P nx ny (Suc nz)"
  shows "P nx ny nz"
  using assms
  by (rule_tac Terms_scale_d.induct [of "\<lambda>rd nx ny nz C. P nx ny nz" undefined nx ny nz undefined])
     blast+

lemma accumulatesI: "(\<And>V i. F V i = foldl (dadd rd) (V i) (incs i)) \<Longrightarrow> accumulates rd F"
  unfolding accumulates_def by blast

lemma acc_id: "accumulates rd (\<lambda>V. V)"
  by (rule accumulatesI [where incs = "\<lambda>i. []"]) simp

lemma acc_comp:
  assumes "accumulates rd F" and "accumulates rd G"
  shows "accumulates rd (\<lambda>V. G (F V))"
proof -
  from assms obtain f g where f: "\<And>V i. F V i = foldl (dadd rd) (V i) (f i)"
    and g: "\<And>V i. G V i = foldl (dadd rd) (V i) (g i)"
    unfolding accumulates_def by blast
  show ?thesis
    by (rule accumulatesI [where incs = "\<lambda>i. f i @ g i"]) (simp add: f g)
qed

lemma acc_upd: "accumulates rd (\<lambda>V. V(k := dadd rd (V k) c))"
  by (rule accumulatesI [where incs = "\<lambda>i. if i = k then [c] else []"]) simp

lemma acc_vadd: "accumulates rd (\<lambda>V. vadd_d rd N V C)"
  by (rule accumulatesI [where incs = "\<lambda>i. if i < N then [C i] else []"])
     (simp add: vadd_d_def)

lemma acc_fold:
  assumes "\<And>k. accumulates rd (f k)"
  shows "accumulates rd (\<lambda>V. fold f ks V)"
proof (induction ks)
  case Nil
  show ?case by (simp add: acc_id)
next
  case (Cons k ks)
  have "accumulates rd (\<lambda>V. fold f ks (f k V))"
    using assms Cons by (rule acc_comp)
  then show ?case by simp
qed

lemma acc_then_upd:
  assumes "accumulates rd F"
  shows "accumulates rd (\<lambda>V. (F V)(k := dadd rd (F V k) c))"
  by (rule acc_comp [where G = "\<lambda>W. W(k := dadd rd (W k) c)", OF assms acc_upd])

lemma acc_Upward_M2M: "accumulates rd (\<lambda>V. Upward_M2M_d rd nx ny nz V C MJ)"
proof (induction nx ny nz rule: walk_induct)
  case origin
  show ?case by (simp add: acc_id)
next
  case (x nx)
  show ?case unfolding Upward_M2M_d.simps Let_def by (rule acc_then_upd [OF x])
next
  case (y nx ny)
  show ?case unfolding Upward_M2M_d.simps Let_def by (rule acc_then_upd [OF y])
next
  case (z nx ny nz)
  show ?case unfolding Upward_M2M_d.simps Let_def by (rule acc_then_upd [OF z])
qed

lemma acc_Downward_M2L: "accumulates rd (\<lambda>V. Downward_M2L_d rd P nx ny nz V C M)"
proof (induction nx ny nz rule: walk_induct)
  case origin
  show ?case by (simp add: acc_id)
next
  case (x nx)
  show ?case unfolding Downward_M2L_d.simps Let_def by (rule acc_then_upd [OF x])
next
  case (y nx ny)
  show ?case unfolding Downward_M2L_d.simps Let_def by (rule acc_then_upd [OF y])
next
  case (z nx ny nz)
  show ?case unfolding Downward_M2L_d.simps Let_def by (rule acc_then_upd [OF z])
qed

lemma acc_Downward_L2L: "accumulates rd (\<lambda>V. Downward_L2L_d rd P nx ny nz V C L)"
proof (induction nx ny nz rule: walk_induct)
  case origin
  show ?case by (simp add: acc_id)
next
  case (x nx)
  show ?case unfolding Downward_L2L_d.simps Let_def by (rule acc_then_upd [OF x])
next
  case (y nx ny)
  show ?case unfolding Downward_L2L_d.simps Let_def by (rule acc_then_upd [OF y])
next
  case (z nx ny nz)
  show ?case unfolding Downward_L2L_d.simps Let_def by (rule acc_then_upd [OF z])
qed

lemma acc_slot0_loop:
  "accumulates rd (\<lambda>V. fold (\<lambda>i L. L(0 := dadd rd (L 0) (dmul rd (A i) (B i)))) ks V)"
  by (rule acc_fold) (rule acc_upd)

lemma acc_P2M: "accumulates rd (P2M_d rd P s q c)"
  unfolding P2M_d_def Let_def by (rule acc_vadd)

lemma acc_M2M: "accumulates rd (\<lambda>Mt. M2M_d rd P Ms Mt tau)"
proof -
  have "accumulates rd (\<lambda>V. fold (\<lambda>i Mt. Mt(i := dadd rd (Mt i) (dmul rd (C i) (Ms 0)))) ks V)"
    for C ks
    by (rule acc_fold) (rule acc_upd)
  from acc_comp [OF this acc_Upward_M2M]
  show ?thesis unfolding M2M_d_def Let_def .
qed

lemma acc_sumM2L: "accumulates rd (\<lambda>L. sumM2L_d rd P L C M)"
proof -
  note a = acc_comp [OF acc_vadd acc_slot0_loop]
  from acc_comp [OF a acc_Downward_M2L]
  show ?thesis unfolding sumM2L_d_def Let_def .
qed

lemma acc_M2L: "accumulates rd (\<lambda>L. M2L_d rd P M L tau)"
  unfolding M2L_d_def Let_def by (rule acc_sumM2L)

lemma acc_four:
  "accumulates rd (\<lambda>B. (((B(0 := dadd rd (B 0) c0))
       (1 := dadd rd ((B(0 := dadd rd (B 0) c0)) 1) c1))
       (2 := dadd rd (((B(0 := dadd rd (B 0) c0))
                (1 := dadd rd ((B(0 := dadd rd (B 0) c0)) 1) c1)) 2) c2))
       (3 := dadd rd ((((B(0 := dadd rd (B 0) c0))
                (1 := dadd rd ((B(0 := dadd rd (B 0) c0)) 1) c1))
                (2 := dadd rd (((B(0 := dadd rd (B 0) c0))
                         (1 := dadd rd ((B(0 := dadd rd (B 0) c0)) 1) c1)) 2) c2)) 3) c3))"
  by (intro acc_then_upd acc_upd)

lemma acc_sumM2P: "accumulates rd (\<lambda>B. sumM2P_d rd P B C M)"
proof -
  note a = acc_comp [OF acc_four acc_slot0_loop]
  from acc_comp [OF a acc_Downward_M2L]
  show ?thesis unfolding sumM2P_d_def Let_def .
qed

lemma acc_M2P: "accumulates rd (M2P_d rd P M cen tgt)"
  unfolding M2P_d_def Let_def by (rule acc_sumM2P)

lemma acc_L2L: "accumulates rd (\<lambda>Lt. L2L_d rd P Ls Lt tau)"
proof -
  note a = acc_comp [OF acc_vadd acc_slot0_loop]
  from acc_comp [OF a acc_Downward_L2L]
  show ?thesis unfolding L2L_d_def Let_def .
qed

lemma acc_L2P: "accumulates rd (L2P_d rd P L cen tgt)"
proof -
  note a = acc_comp [OF acc_four acc_slot0_loop]
  from acc_comp [OF a acc_Downward_L2L]
  show ?thesis unfolding L2P_d_def Let_def .
qed

section \<open>Accumulation: consequences and limits\<close>

lemma foldl_dadd_nonfin: "\<not> is_fin v \<Longrightarrow> \<not> is_fin (foldl (dadd rd) v cs)"
proof (induction cs arbitrary: v)
  case Nil
  then show ?case by simp
next
  case (Cons c cs)
  from Cons.prems have "\<not> is_fin (dadd rd v c)" using dadd_fin by blast
  then show ?case using Cons.IH by simp
qed

lemma foldl_dadd_exact:
  "foldl (dadd Fin) (Fin a) cs = Fin z \<Longrightarrow> foldl (dadd Fin) (Fin b) cs = Fin (b + (z - a))"
proof (induction cs arbitrary: a b)
  case Nil
  then show ?case by simp
next
  case (Cons c cs)
  show ?case
  proof (cases c)
    case (Fin y)
    from Cons.prems have "foldl (dadd Fin) (Fin (a + y)) cs = Fin z" by (simp add: Fin)
    from Cons.IH [OF this, of "b + y"] show ?thesis by (simp add: Fin algebra_simps)
  next
    case PInf
    have "\<not> is_fin (foldl (dadd Fin) (dadd Fin (Fin a) c) cs)"
      by (rule foldl_dadd_nonfin) (simp add: PInf)
    with Cons.prems show ?thesis by simp
  next
    case NInf
    have "\<not> is_fin (foldl (dadd Fin) (dadd Fin (Fin a) c) cs)"
      by (rule foldl_dadd_nonfin) (simp add: NInf)
    with Cons.prems show ?thesis by simp
  next
    case NaN
    have "\<not> is_fin (foldl (dadd Fin) (dadd Fin (Fin a) c) cs)"
      by (rule foldl_dadd_nonfin) (simp add: NaN)
    with Cons.prems show ?thesis by simp
  qed
qed

lemma acc_exact_delta:
  assumes "accumulates Fin F"
  shows "exact_delta F"
proof -
  from assms obtain incs where f: "\<And>V i. F V i = foldl (dadd Fin) (V i) (incs i)"
    unfolding accumulates_def by blast
  show ?thesis
    unfolding exact_delta_def
  proof (intro allI impI)
    fix V W :: dvec and i a b z
    assume h: "V i = Fin a \<and> W i = Fin b \<and> F V i = Fin z"
    then have va: "V i = Fin a" and wb: "W i = Fin b" and fz: "F V i = Fin z" by simp_all
    have z: "foldl (dadd Fin) (Fin a) (incs i) = Fin z"
      using f [of V i] unfolding va fz by (rule sym)
    have "F W i = Fin (b + (z - a))"
      unfolding f [of W i] wb by (rule foldl_dadd_exact [OF z])
    moreover have "foldl (dadd Fin) (Fin z) (incs i) = Fin (z + (z - a))"
      by (rule foldl_dadd_exact [OF z])
    then have "F (F V) i = Fin (a + 2 * (z - a))"
      unfolding f [of "F V" i] fz by (simp add: algebra_simps)
    ultimately show "F W i = Fin (b + (z - a)) \<and> F (F V) i = Fin (a + 2 * (z - a))" ..
  qed
qed

text \<open>
  C9 (as amended). Each of the six operators only accumulates into its output argument:
  in double precision every slot of the result is the prior content of the slot with
  increments added to it one after the other, and the increments do not depend on the
  prior contents of the output vector (the operator never reads the output's prior slots
  to compute what it adds). In exact arithmetic the amount added is therefore identical
  for any two initial contents, and invoking the operator twice adds it twice; in double
  precision each addition rounds, and the amount added can differ.
\<close>

theorem operators_accumulate:
  "(accumulates round64 (P2M_d round64 P s q c) \<and> exact_delta (P2M_d Fin P s q c))
   \<and> (accumulates round64 (\<lambda>V. M2M_d round64 P Ms V tau)
        \<and> exact_delta (\<lambda>V. M2M_d Fin P Ms V tau))
   \<and> (accumulates round64 (\<lambda>V. M2L_d round64 P M V tau)
        \<and> exact_delta (\<lambda>V. M2L_d Fin P M V tau))
   \<and> (accumulates round64 (M2P_d round64 P M cen tgt)
        \<and> exact_delta (M2P_d Fin P M cen tgt))
   \<and> (accumulates round64 (\<lambda>V. L2L_d round64 P Ls V tau)
        \<and> exact_delta (\<lambda>V. L2L_d Fin P Ls V tau))
   \<and> (accumulates round64 (L2P_d round64 P L cen tgt)
        \<and> exact_delta (L2P_d Fin P L cen tgt))"
  by (intro conjI acc_P2M acc_M2M acc_M2L acc_M2P acc_L2L acc_L2P
      acc_exact_delta [OF acc_P2M] acc_exact_delta [OF acc_M2M] acc_exact_delta [OF acc_M2L]
      acc_exact_delta [OF acc_M2P] acc_exact_delta [OF acc_L2L] acc_exact_delta [OF acc_L2P])

lemma P2M_d_2_slot1:
  "P2M_d Fin 2 (Fin 0, Fin 0, Fin 0) (Fin 2) (Fin 1, Fin 2, Fin 3) V 1 = dadd Fin (V 1) (Fin 2)"
  by (simp add: P2M_d_def Let_def vadd_d_def term_counts dsub_def slot_values_Suc slot_values)

theorem operators_accumulate_witness:
  "(dzero(1 := Fin 5)) 1 = Fin 5 \<and> (dzero(1 := Fin 7)) 1 = Fin 7
   \<and> P2M_d Fin 2 (Fin 0, Fin 0, Fin 0) (Fin 2) (Fin 1, Fin 2, Fin 3) (dzero(1 := Fin 5)) 1 = Fin 7
   \<and> P2M_d Fin 2 (Fin 0, Fin 0, Fin 0) (Fin 2) (Fin 1, Fin 2, Fin 3) (dzero(1 := Fin 7)) 1 = Fin 9
   \<and> P2M_d Fin 2 (Fin 0, Fin 0, Fin 0) (Fin 2) (Fin 1, Fin 2, Fin 3)
        (P2M_d Fin 2 (Fin 0, Fin 0, Fin 0) (Fin 2) (Fin 1, Fin 2, Fin 3) (dzero(1 := Fin 5))) 1
       = Fin 9"
proof -
  let ?F = "P2M_d Fin 2 (Fin 0, Fin 0, Fin 0) (Fin 2) (Fin 1, Fin 2, Fin 3)"
  have h: "(dzero(1 := Fin 5)) 1 = Fin 5 \<and> (dzero(1 := Fin 7)) 1 = Fin 7
      \<and> ?F (dzero(1 := Fin 5)) 1 = Fin 7"
    using P2M_d_2_slot1 by simp
  from operators_accumulate [where P = 2 and s = "(Fin 0, Fin 0, Fin 0)" and q = "Fin 2"
      and c = "(Fin 1, Fin 2, Fin 3)"]
  have "exact_delta ?F" by blast
  then have "?F (dzero(1 := Fin 7)) 1 = Fin (7 + (7 - 5))
      \<and> ?F (?F (dzero(1 := Fin 5))) 1 = Fin (5 + 2 * (7 - 5))"
    unfolding exact_delta_def using h by blast
  with h show ?thesis by simp
qed

text \<open>
  The claim as stated fails in double precision for \<^verbatim>\<open>P2M\<close> at order 1 with charge 1: into
  an output whose slot 0 holds \<open>2\<^sup>5\<^sup>3\<close> the operator adds nothing (\<open>2\<^sup>5\<^sup>3 + 1\<close> rounds to
  \<open>2\<^sup>5\<^sup>3\<close>), into a zero output it adds 1.
\<close>

theorem operators_absorb_counterexample:
  "P2M_d round64 1 (Fin 0, Fin 0, Fin 0) (Fin 1) (Fin 0, Fin 0, Fin 0) (dzero(0 := Fin (2 ^ 53))) 0
     = Fin (2 ^ 53)
   \<and> P2M_d round64 1 (Fin 0, Fin 0, Fin 0) (Fin 1) (Fin 0, Fin 0, Fin 0) dzero 0 = Fin 1
   \<and> (2 ^ 53 :: real) - 2 ^ 53 \<noteq> 1 - 0"
  using round64_absorb
  by (simp add: P2M_d_def Let_def vadd_d_def term_counts_Suc term_counts)

section \<open>Slot 0 of a multipole expansion\<close>

lemma walk_slot_nonzero:
  assumes "nx + ny + nz \<le> 1624" and "(nx, ny, nz) \<noteq> (0, 0, 0)"
  shows "Index_I nx ny nz \<noteq> 0"
  using assms by (simp add: Index_I_exact slot_nonzero)

lemma Terms_power_d_slot0:
  "nx + ny + nz \<le> 1624 \<Longrightarrow> Terms_power_d rd nx ny nz C d 0 = C 0"
proof (induction nx ny nz rule: walk_induct)
  case origin
  show ?case by simp
next
  case (x nx)
  then show ?case using walk_slot_nonzero [of "Suc nx" 0 0] by (simp add: Let_def)
next
  case (y nx ny)
  then show ?case using walk_slot_nonzero [of nx "Suc ny" 0] by (simp add: Let_def)
next
  case (z nx ny nz)
  then show ?case using walk_slot_nonzero [of nx ny "Suc nz"] by (simp add: Let_def)
qed

lemma Upward_M2M_d_slot0:
  "nx + ny + nz \<le> 1624 \<Longrightarrow> Upward_M2M_d rd nx ny nz MI C MJ 0 = MI 0"
proof (induction nx ny nz rule: walk_induct)
  case origin
  show ?case by simp
next
  case (x nx)
  then show ?case using walk_slot_nonzero [of "Suc nx" 0 0] by (simp add: Let_def)
next
  case (y nx ny)
  then show ?case using walk_slot_nonzero [of nx "Suc ny" 0] by (simp add: Let_def)
next
  case (z nx ny nz)
  then show ?case using walk_slot_nonzero [of nx ny "Suc nz"] by (simp add: Let_def)
qed

lemma fold_each_above:
  fixes ks :: "nat list"
  shows "\<forall>k \<in> set ks. j < k \<Longrightarrow> fold (\<lambda>i Mt. Mt(i := g i (Mt i))) ks Mt j = Mt j"
proof (induction ks arbitrary: Mt)
  case Nil
  show ?case by simp
next
  case (Cons k ks)
  from Cons.prems have "j < k" and r: "\<forall>k \<in> set ks. j < k" by simp_all
  from \<open>j < k\<close> have "j \<noteq> k" by simp
  with Cons.IH [OF r, of "Mt(k := g k (Mt k))"] show ?case by simp
qed

lemma fold_each_slot0:
  assumes "0 < n"
  shows "fold (\<lambda>i Mt. Mt(i := g i (Mt i))) [0 ..< n] Mt 0 = g 0 (Mt 0)"
proof -
  have "[0 ..< n] = 0 # [1 ..< n]" using assms by (simp add: upt_conv_Cons)
  then show ?thesis by (simp add: fold_each_above)
qed

lemma P2M_d_slot0:
  assumes "1 \<le> P" and "P \<le> 1624"
  shows "P2M_d rd P s q c M 0 = dadd rd (M 0) q"
proof -
  have "0 + 0 + (P - 1) \<le> 1624" using assms by simp
  from Terms_power_d_slot0 [OF this] MTERM_pos [OF assms] show ?thesis
    by (simp add: P2M_d_def Let_def vadd_d_def)
qed

lemma dmul_one: "is_dbl rd a \<Longrightarrow> dmul rd (Fin 1) a = a"
  by (cases a) simp_all

lemma M2M_d_slot0:
  assumes "1 \<le> P" and "P \<le> 1624" and "is_dbl rd (Ms 0)"
  shows "M2M_d rd P Ms Mt tau 0 = dadd rd (Mt 0) (Ms 0)"
proof -
  have D: "0 + 0 + (P - 1) \<le> 1624" using assms by simp
  have "M2M_d rd P Ms Mt tau 0
      = dadd rd (Mt 0) (dmul rd (Terms_power_d rd 0 0 (P - 1) (dzero(0 := Fin 1)) tau 0) (Ms 0))"
    unfolding M2M_d_def Let_def Upward_M2M_d_slot0 [OF D]
    by (rule fold_each_slot0 [OF MTERM_pos [OF assms(1,2)]])
  then show ?thesis
    unfolding Terms_power_d_slot0 [OF D] by (simp add: dmul_one [OF assms(3)])
qed

text \<open>
  C8 (as amended). Multipole slot 0 carries the total charge to rounding. In double
  precision, for an order \<open>1 \<le> P \<le> 1624\<close>, \<^verbatim>\<open>P2M\<close> adds the charge to \<open>M[0]\<close> by one rounded
  addition and \<^verbatim>\<open>M2M\<close> adds \<open>Msource[0]\<close> to \<open>Mtarget[0]\<close> by one rounded addition. In exact
  arithmetic \<^verbatim>\<open>P2M\<close> increases \<open>M[0]\<close> by exactly \<open>q\<close>, \<^verbatim>\<open>M2M\<close> increases \<open>Mtarget[0]\<close> by
  exactly \<open>Msource[0]\<close>, and after the upward pass over any tree of boxes (\<^verbatim>\<open>P2M\<close> of the
  bodies into zeroed leaf multipoles, \<^verbatim>\<open>M2M\<close> of the children into zeroed parents) the
  root's slot 0 equals the sum of all charges.
\<close>

theorem charge_conservation:
  assumes "1 \<le> P" and "P \<le> 1624" and "is_dbl round64 (Ns 0)"
  shows "P2M_d round64 P sd qd cd Md 0 = dadd round64 (Md 0) qd
       \<and> M2M_d round64 P Ns Nt sigma 0 = dadd round64 (Nt 0) (Ns 0)
       \<and> P2M P s q c M 0 = M 0 + q
       \<and> M2M P Msource Mtarget tau 0 = Mtarget 0 + Msource 0
       \<and> upward P t 0 = sum_list (charges t)"
  using assms by (simp add: P2M_slot0 M2M_slot0 upward_slot0 P2M_d_slot0 M2M_d_slot0)

theorem charge_conservation_witness:
  "(1::nat) \<le> 3 \<and> (3::nat) \<le> 1624 \<and> is_dbl round64 ((dzero(0 := Fin 4)) 0)
   \<and> P2M_d round64 3 (Fin 1, Fin 2, Fin 1) (Fin 2) (Fin 1, Fin 1, Fin 1) (dzero(0 := Fin 5)) 0
       = Fin 7
   \<and> M2M_d round64 3 (dzero(0 := Fin 4)) (dzero(0 := Fin 5)) (Fin 1, Fin 0, Fin 0) 0 = Fin 9
   \<and> upward 3 (Box (0, 0, 0) [Leaf (1, 1, 1) [((1, 2, 1), 2), ((0, 1, 1), 5)],
                                Leaf (-1, 1, 1) [((-1, 0, 2), 4)]]) 0 = 11"
proof -
  have h: "(1::nat) \<le> 3" "(3::nat) \<le> 1624" "is_dbl round64 ((dzero(0 := Fin 4)) 0)"
    by simp_all
  note t = charge_conservation [where P = 3 and Ns = "dzero(0 := Fin 4)", OF h, where t =
      "Box (0, 0, 0) [Leaf (1, 1, 1) [((1, 2, 1), 2), ((0, 1, 1), 5)],
                       Leaf (-1, 1, 1) [((-1, 0, 2), 4)]]"
      and sd = "(Fin 1, Fin 2, Fin 1)" and qd = "Fin 2" and cd = "(Fin 1, Fin 1, Fin 1)"
      and Md = "dzero(0 := Fin 5)" and Nt = "dzero(0 := Fin 5)" and sigma = "(Fin 1, Fin 0, Fin 0)"]
  from t have "P2M_d round64 3 (Fin 1, Fin 2, Fin 1) (Fin 2) (Fin 1, Fin 1, Fin 1)
      (dzero(0 := Fin 5)) 0 = dadd round64 ((dzero(0 := Fin 5)) 0) (Fin 2)" by blast
  moreover from t have "M2M_d round64 3 (dzero(0 := Fin 4)) (dzero(0 := Fin 5))
      (Fin 1, Fin 0, Fin 0) 0 = dadd round64 ((dzero(0 := Fin 5)) 0) ((dzero(0 := Fin 4)) 0)"
    by blast
  moreover from t have "upward 3 (Box (0, 0, 0) [Leaf (1, 1, 1) [((1, 2, 1), 2), ((0, 1, 1), 5)],
                       Leaf (-1, 1, 1) [((-1, 0, 2), 4)]]) 0
      = sum_list (charges (Box (0, 0, 0) [Leaf (1, 1, 1) [((1, 2, 1), 2), ((0, 1, 1), 5)],
                       Leaf (-1, 1, 1) [((-1, 0, 2), 4)]]))"
    by blast
  ultimately show ?thesis using h by simp
qed

text \<open>
  The claim as stated fails in double precision: at order 1, a root with one leaf holding
  the charges \<open>2\<^sup>5\<^sup>3\<close>, \<open>1\<close>, \<open>-2\<^sup>5\<^sup>3\<close> ends with \<open>0\<close> in slot 0 (the charge \<open>1\<close> is absorbed
  when it is added to \<open>2\<^sup>5\<^sup>3\<close>), and the charges sum to \<open>1\<close>.
\<close>

theorem charge_absorbed_counterexample:
  "upward_d round64 1
     (DBox (Fin 0, Fin 0, Fin 0)
        [DLeaf (Fin 0, Fin 0, Fin 0)
           [((Fin 0, Fin 0, Fin 0), Fin (2 ^ 53)), ((Fin 0, Fin 0, Fin 0), Fin 1),
            ((Fin 0, Fin 0, Fin 0), Fin (- (2 ^ 53)))]]) 0 = Fin 0
   \<and> sum_list (map val (charges_d
       (DBox (Fin 0, Fin 0, Fin 0)
          [DLeaf (Fin 0, Fin 0, Fin 0)
             [((Fin 0, Fin 0, Fin 0), Fin (2 ^ 53)), ((Fin 0, Fin 0, Fin 0), Fin 1),
              ((Fin 0, Fin 0, Fin 0), Fin (- (2 ^ 53)))]]))) = 1"
proof -
  have p: "P2M_d round64 1 s q c M 0 = dadd round64 (M 0) q" for s q c M
    by (rule P2M_d_slot0) simp_all
  have m: "M2M_d round64 1 Ms Mt tau 0 = dadd round64 (Mt 0) (Ms 0)" if "is_dbl round64 (Ms 0)"
    for Ms Mt tau
    using that by (intro M2M_d_slot0) simp_all
  let ?o = "(Fin 0, Fin 0, Fin 0)"
  let ?A = "P2M_d round64 1 ?o (Fin (2 ^ 53)) ?o dzero"
  let ?B = "P2M_d round64 1 ?o (Fin 1) ?o ?A"
  let ?C = "P2M_d round64 1 ?o (Fin (- (2 ^ 53))) ?o ?B"
  have z: "(0::real) + 2 ^ 53 = 2 ^ 53" "(2::real) ^ 53 + - (2 ^ 53) = 0" by simp_all
  have "?A 0 = dadd round64 (dzero 0) (Fin (2 ^ 53))" by (rule p)
  then have a: "?A 0 = Fin (2 ^ 53)"
    by (simp only: dzero_apply dadd.simps z round64_pow2_53)
  have "?B 0 = dadd round64 (?A 0) (Fin 1)" by (rule p)
  then have b: "?B 0 = Fin (2 ^ 53)"
    by (simp only: a dadd.simps round64_absorb)
  have "?C 0 = dadd round64 (?B 0) (Fin (- (2 ^ 53)))" by (rule p)
  then have c: "?C 0 = Fin 0"
    by (simp only: b dadd.simps z round64_zero)
  have "upward_d round64 1 (DBox ?o [DLeaf ?o [(?o, Fin (2 ^ 53)), (?o, Fin 1),
            (?o, Fin (- (2 ^ 53)))]]) 0
      = M2M_d round64 1 ?C dzero (psub_d round64 ?o ?o) 0"
    by simp
  also have "\<dots> = dadd round64 (dzero 0) (?C 0)"
    by (rule m) (simp only: c is_dbl.simps round64_zero)
  also have "\<dots> = Fin 0" unfolding c by simp
  finally show ?thesis by simp
qed

end
